theory Spec2Isabelle
  imports Main "HOL-Library.AList" "HOL-Library.Multiset" "HOL-Library.Option_ord"
    "HOL-Library.Char_ord" "HOL-Library.Sublist"
    "HOL-Library.List_Lexorder"
begin

section \<open>JSON documents\<close>

text \<open>
  \<^verbatim>\<open>jsanitize(doc, strict=True)\<close> hands \<^verbatim>\<open>JobStore.update\<close> a plain nested structure of
  dicts with string keys, lists and scalars; the backing collections store and return the
  same. A dict is an association list in insertion order (a Python dict keeps its keys in
  insertion order and a key occurs once: \<open>wf_json\<close> below). Floats are left out.
\<close>

datatype json = JNull | JBool bool | JInt int | JStr string
  | JArr "json list" | JObj "(string \<times> json) list"

text \<open>A path segment is a dict key or a list index; a location is a path.\<close>

datatype seg = Key string | Idx nat

type_synonym location = "seg list"

datatype error = KeyError | IndexError | TypeError | ValueError

text \<open>Every dict of the value has each key once.\<close>

fun wf_json :: "json \<Rightarrow> bool"
  and wf_items :: "(string \<times> json) list \<Rightarrow> bool"
  and wf_elems :: "json list \<Rightarrow> bool" where
  "wf_json (JObj kvs) = (distinct (map fst kvs) \<and> wf_items kvs)"
| "wf_json (JArr xs) = wf_elems xs"
| "wf_json JNull = True"
| "wf_json (JBool b) = True"
| "wf_json (JInt n) = True"
| "wf_json (JStr s) = True"
| "wf_items [] = True"
| "wf_items ((k, v) # kvs) = (wf_json v \<and> wf_items kvs)"
| "wf_elems [] = True"
| "wf_elems (v # vs) = (wf_json v \<and> wf_elems vs)"

text \<open>\<^verbatim>\<open>d[k]\<close> and \<^verbatim>\<open>d.get(k)\<close> on a document: \<open>None\<close> is the missing key.\<close>

fun field :: "string \<Rightarrow> json \<Rightarrow> json option" where
  "field k (JObj kvs) = map_of kvs k"
| "field k _ = None"

definition has_key :: "string \<Rightarrow> json \<Rightarrow> bool" where
  "has_key k d = (field k d \<noteq> None)"

text \<open>Python dict keys must be hashable: a list or a dict as a key raises TypeError.\<close>

fun hashable :: "json \<Rightarrow> bool" where
  "hashable (JArr xs) = False"
| "hashable (JObj kvs) = False"
| "hashable _ = True"

text \<open>
  A dict built from pairs, as \<^verbatim>\<open>dict(zip(ks, vs))\<close> and a dict comprehension build it: a key
  keeps the position of its first occurrence and the value of its last.
\<close>

definition dict_of :: "('k \<times> 'v) list \<Rightarrow> ('k \<times> 'v) list" where
  "dict_of ps = fold (\<lambda>(k, v) d. AList.update k v d) ps []"

section \<open>Location algebra (jobflow.utils.find, pydash.get)\<close>

text \<open>
  Modelled from the spec: \<^verbatim>\<open>jobflow.utils.find.find_key\<close> is not under src/. Spec 4.1: a
  recursive descent over nested mappings and sequences; at each mapping that has the
  searched key the path to it is recorded (with the key as last segment when
  \<open>include_end\<close>), and the recursion goes on into every value of every mapping and every
  element of every sequence, in the document's key and index order. Paths are relative to
  the value searched.
\<close>

fun find_key :: "string \<Rightarrow> bool \<Rightarrow> json \<Rightarrow> location list"
  and find_key_items :: "string \<Rightarrow> bool \<Rightarrow> (string \<times> json) list \<Rightarrow> location list"
  and find_key_elems :: "string \<Rightarrow> bool \<Rightarrow> nat \<Rightarrow> json list \<Rightarrow> location list" where
  "find_key key include_end (JObj kvs) =
     (if key \<in> fst ` set kvs then [if include_end then [Key key] else []] else [])
       @ find_key_items key include_end kvs"
| "find_key key include_end (JArr xs) = find_key_elems key include_end 0 xs"
| "find_key key include_end JNull = []"
| "find_key key include_end (JBool b) = []"
| "find_key key include_end (JInt n) = []"
| "find_key key include_end (JStr s) = []"
| "find_key_items key include_end [] = []"
| "find_key_items key include_end ((k, v) # kvs) =
     map ((#) (Key k)) (find_key key include_end v) @ find_key_items key include_end kvs"
| "find_key_elems key include_end i [] = []"
| "find_key_elems key include_end i (v # vs) =
     map ((#) (Idx i)) (find_key key include_end v) @ find_key_elems key include_end (Suc i) vs"

text \<open>
  \<^verbatim>\<open>pydash.get(doc, list(loc))\<close>: the value at a path, and pydash's default \<^verbatim>\<open>None\<close> where
  the path leaves the document.
\<close>

fun get_in :: "json \<Rightarrow> location \<Rightarrow> json option" where
  "get_in t [] = Some t"
| "get_in (JObj kvs) (Key k # p) =
     (case map_of kvs k of None \<Rightarrow> None | Some v \<Rightarrow> get_in v p)"
| "get_in (JArr xs) (Idx i # p) = (if i < length xs then get_in (xs ! i) p else None)"
| "get_in _ (s # p) = None"

definition pydash_get :: "json \<Rightarrow> location \<Rightarrow> json" where
  "pydash_get doc loc = (case get_in doc loc of None \<Rightarrow> JNull | Some v \<Rightarrow> v)"

text \<open>
  Modelled from the spec: \<^verbatim>\<open>jobflow.utils.find.update_in_dictionary\<close> is not under src/.
  Spec 4.1: for each location in turn, the value at that exact path is set, overwriting
  the terminal position; every intermediate container on the path is assumed to exist.
  Where one does not, Python's subscripting raises, and so does the last segment of an
  empty location.
\<close>

fun set_in :: "json \<Rightarrow> location \<Rightarrow> json \<Rightarrow> error + json" where
  "set_in t [] v = Inl IndexError"
| "set_in (JObj kvs) [Key k] v = Inr (JObj (AList.update k v kvs))"
| "set_in (JArr xs) [Idx i] v =
     (if i < length xs then Inr (JArr (xs[i := v])) else Inl IndexError)"
| "set_in (JObj kvs) (Key k # p) v =
     (case map_of kvs k of
        None \<Rightarrow> Inl KeyError
      | Some c \<Rightarrow>
          (case set_in c p v of
             Inl e \<Rightarrow> Inl e
           | Inr c' \<Rightarrow> Inr (JObj (AList.update k c' kvs))))"
| "set_in (JArr xs) (Idx i # p) v =
     (if i < length xs
      then (case set_in (xs ! i) p v of
              Inl e \<Rightarrow> Inl e
            | Inr c' \<Rightarrow> Inr (JArr (xs[i := c'])))
      else Inl IndexError)"
| "set_in (JObj kvs) (Idx i # p) v = Inl KeyError"
| "set_in _ (s # p) v = Inl TypeError"

fun update_in_dictionary :: "json \<Rightarrow> (location \<times> json) list \<Rightarrow> error + json" where
  "update_in_dictionary d [] = Inr d"
| "update_in_dictionary d ((loc, v) # updates) =
     (case set_in d loc v of
        Inl e \<Rightarrow> Inl e
      | Inr d' \<Rightarrow> update_in_dictionary d' updates)"

section \<open>The backing collections (maggma Store)\<close>

text \<open>
  Modelled from the spec: the two backing collections are maggma stores, outside the
  repository. Spec 6 gives the contract JobStore consumes: \<open>query(criteria, properties,
  sort, skip, limit)\<close>, \<open>update(records, key)\<close> upserting by the key fields, and
  \<open>remove_docs(criteria)\<close>. A collection is the list of its records. The criteria are the
  ones JobStore builds: for each named top-level field, equality or membership
  (\<^verbatim>\<open>{"$in": [...]}\<close>).
\<close>

datatype cond = Eq json | In "json list"

type_synonym criteria = "(string \<times> cond) list"

fun holds :: "cond \<Rightarrow> json \<Rightarrow> bool" where
  "holds (Eq x) v = (v = x)"
| "holds (In xs) v = (v \<in> set xs)"

definition matches :: "criteria \<Rightarrow> json \<Rightarrow> bool" where
  "matches crit d =
     list_all (\<lambda>(k, c). case field k d of None \<Rightarrow> False | Some v \<Rightarrow> holds c v) crit"

text \<open>
  A projection is a list of field names or a dict from field names to 1; the collection
  returns the named top-level fields a record has.
\<close>

datatype properties = PList "string list" | PDict "(string \<times> int) list"

fun wanted :: "properties \<Rightarrow> string list" where
  "wanted (PList ps) = ps"
| "wanted (PDict pd) = map fst (filter (\<lambda>(k, n). n \<noteq> 0) pd)"

fun project :: "properties option \<Rightarrow> json \<Rightarrow> json" where
  "project None d = d"
| "project (Some p) (JObj kvs) = JObj (filter (\<lambda>(k, v). k \<in> set (wanted p)) kvs)"
| "project (Some p) d = d"

text \<open>
  Sorting on one field, 1 ascending and -1 descending, as JobStore asks for
  (\<^verbatim>\<open>{"index": sort}\<close>): integers in their order, a record without an integer there first.
\<close>

definition sort_val :: "string \<Rightarrow> json \<Rightarrow> int option" where
  "sort_val f d = (case field f d of Some (JInt n) \<Rightarrow> Some n | _ \<Rightarrow> None)"

fun sort_docs :: "(string \<times> int) option \<Rightarrow> json list \<Rightarrow> json list" where
  "sort_docs None ds = ds"
| "sort_docs (Some (f, dir)) ds =
     (if dir < 0 then rev (sort_key (sort_val f) (rev ds)) else sort_key (sort_val f) ds)"

definition coll_query ::
  "json list \<Rightarrow> criteria \<Rightarrow> properties option \<Rightarrow> (string \<times> int) option \<Rightarrow> nat \<Rightarrow> nat
     \<Rightarrow> json list" where
  "coll_query coll crit props srt skip limit =
     (let found = drop skip (sort_docs srt (filter (matches crit) coll))
      in map (project props) (if limit = 0 then found else take limit found))"

text \<open>
  \<open>update(records, key)\<close>: each record replaces the first stored record that agrees with it
  on the key fields, and is inserted when there is none. A record without a key field
  raises KeyError before anything is written.
\<close>

fun search_doc :: "string list \<Rightarrow> json \<Rightarrow> criteria option" where
  "search_doc [] d = Some []"
| "search_doc (k # ks) d =
     (case field k d of
        None \<Rightarrow> None
      | Some v \<Rightarrow> (case search_doc ks d of None \<Rightarrow> None | Some c \<Rightarrow> Some ((k, Eq v) # c)))"

fun replace_one :: "criteria \<Rightarrow> json \<Rightarrow> json list \<Rightarrow> json list" where
  "replace_one c d [] = [d]"
| "replace_one c d (x # xs) = (if matches c x then d # xs else x # replace_one c d xs)"

fun requests :: "string list \<Rightarrow> json list \<Rightarrow> (criteria \<times> json) list option" where
  "requests key [] = Some []"
| "requests key (d # ds) =
     (case search_doc key d of
        None \<Rightarrow> None
      | Some c \<Rightarrow> (case requests key ds of None \<Rightarrow> None | Some rs \<Rightarrow> Some ((c, d) # rs)))"

fun bulk_write :: "(criteria \<times> json) list \<Rightarrow> json list \<Rightarrow> json list" where
  "bulk_write [] coll = coll"
| "bulk_write ((c, d) # rs) coll = bulk_write rs (replace_one c d coll)"

definition coll_update :: "json list \<Rightarrow> json list \<Rightarrow> string list \<Rightarrow> error + json list" where
  "coll_update coll ds key =
     (case requests key ds of None \<Rightarrow> Inl KeyError | Some rs \<Rightarrow> Inr (bulk_write rs coll))"

definition coll_remove :: "json list \<Rightarrow> criteria \<Rightarrow> json list" where
  "coll_remove coll crit = filter (\<lambda>d. \<not> matches crit d) coll"

section \<open>Raising inside comprehensions and generators\<close>

text \<open>A comprehension whose element expression may raise: the first error ends it.\<close>

fun try_map :: "('a \<Rightarrow> error + 'b) \<Rightarrow> 'a list \<Rightarrow> error + 'b list" where
  "try_map f [] = Inr []"
| "try_map f (x # xs) =
     (case f x of
        Inl e \<Rightarrow> Inl e
      | Inr y \<Rightarrow> (case try_map f xs of Inl e \<Rightarrow> Inl e | Inr ys \<Rightarrow> Inr (y # ys)))"

text \<open>
  A generator consumed to its end: the values it yielded, and the error that ended it if
  one did. The argument lists, per document, what producing it gives.
\<close>

fun run_gen :: "(error + 'a) list \<Rightarrow> 'a list \<times> error option" where
  "run_gen [] = ([], None)"
| "run_gen (Inl e # rs) = ([], Some e)"
| "run_gen (Inr x # rs) = (case run_gen rs of (ys, r) \<Rightarrow> (x # ys, r))"

section \<open>JobStore (src/jobflow/core/store.py)\<close>

text \<open>
  \<open>load_type\<close>: a bool, one selector or a list of selectors; a selector is a field name,
  an Enum member (by its value) or an MSONable class (by module and name).
  \<open>save_type\<close>: a bool, one field name or a list of field names.
\<close>

datatype ltype = LStr string | LEnum string | LClass string string

datatype load_type = LoadBool bool | LoadOne ltype | LoadList "ltype list"

datatype save_type = SaveBool bool | SaveOne string | SaveList "string list"

text \<open>What \<^verbatim>\<open>_prepare_load\<close> returns: a bool, or a list of field names and (module, class) tuples.\<close>

datatype selector = FieldSel string | TypeSel string string

datatype load_keys = LBool bool | LKeys "selector list"

text \<open>
  The store: its two collections, its default save and load rules, and the values the
  calls of \<^verbatim>\<open>suuid()\<close> return, in order, with the number of calls made so far.
\<close>

record jobstore =
  docs_store :: "json list"
  data_store :: "json list"
  save :: "string list"
  load :: load_type
  suuid_values :: "nat \<Rightarrow> string"
  suuid_calls :: nat

fun prepare_ltype :: "ltype \<Rightarrow> selector" where
  "prepare_ltype (LEnum v) = FieldSel v"
| "prepare_ltype (LClass m c) = TypeSel m c"
| "prepare_ltype (LStr s) = FieldSel s"

fun prepare_load :: "load_type option \<Rightarrow> load_keys" where
  "prepare_load None = LKeys []"
| "prepare_load (Some (LoadBool b)) = LBool b"
| "prepare_load (Some (LoadOne l)) = LKeys [prepare_ltype l]"
| "prepare_load (Some (LoadList ls)) = LKeys (map prepare_ltype ls)"

text \<open>Python's truth value of the prepared load: \<^verbatim>\<open>if load_keys:\<close>.\<close>

fun truthy :: "load_keys \<Rightarrow> bool" where
  "truthy (LBool b) = b"
| "truthy (LKeys ls) = (ls \<noteq> [])"

text \<open>
  The test of \<^verbatim>\<open>_filter_blobs\<close> for one entry of the load list: a tuple that equals the
  blob's class and module passes; otherwise \<^verbatim>\<open>location[-1] == ltype\<close> decides, and
  \<^verbatim>\<open>location[-1]\<close> raises IndexError on an empty location.
\<close>

fun selects :: "selector \<Rightarrow> json \<Rightarrow> location \<Rightarrow> error + bool" where
  "selects (TypeSel m c) blob loc =
     (if field ''@class'' blob = Some (JStr c) \<and> field ''@module'' blob = Some (JStr m)
      then Inr True
      else if loc = [] then Inl IndexError else Inr False)"
| "selects (FieldSel s) blob loc =
     (if loc = [] then Inl IndexError else Inr (last loc = Key s))"

text \<open>The inner loop: the blob is appended once for every entry that passes.\<close>

fun filter_blob :: "selector list \<Rightarrow> json \<times> location \<Rightarrow> error + (json \<times> location) list" where
  "filter_blob [] bl = Inr []"
| "filter_blob (l # ls) bl =
     (case selects l (fst bl) (snd bl) of
        Inl e \<Rightarrow> Inl e
      | Inr keep \<Rightarrow>
          (case filter_blob ls bl of
             Inl e \<Rightarrow> Inl e
           | Inr rest \<Rightarrow> Inr (if keep then bl # rest else rest)))"

definition filter_blobs ::
  "json list \<Rightarrow> location list \<Rightarrow> load_keys \<Rightarrow> error + json list \<times> location list" where
  "filter_blobs blob_infos locations ld =
     (case ld of
        LBool True \<Rightarrow> Inr (blob_infos, locations)
      | LBool False \<Rightarrow> Inr ([], [])
      | LKeys [] \<Rightarrow> Inr ([], [])
      | LKeys (l # ls) \<Rightarrow>
          (case try_map (filter_blob (l # ls)) (zip blob_infos locations) of
             Inl e \<Rightarrow> Inl e
           | Inr pss \<Rightarrow> Inr (map fst (concat pss), map snd (concat pss))))"

text \<open>
  \<^verbatim>\<open>_get_blob_info\<close>: the object comes out of \<^verbatim>\<open>jsanitize\<close>, so it is plain data and never an
  MSONable instance: class and module stay empty. The id is what \<^verbatim>\<open>suuid()\<close> returned.
\<close>

definition get_blob_info :: "json \<Rightarrow> string \<Rightarrow> json" where
  "get_blob_info obj uid =
     JObj [(''@class'', JStr []), (''@module'', JStr []), (''blob_uuid'', JStr uid)]"

subsection \<open>query\<close>

text \<open>The body of the loop of \<^verbatim>\<open>query\<close> for one document of the document collection.\<close>

definition object_info_of :: "(json \<times> location) list \<Rightarrow> error + (json \<times> location) list" where
  "object_info_of bls =
     (case try_map (\<lambda>(b, loc). case field ''blob_uuid'' b of
                                 None \<Rightarrow> Inl KeyError
                               | Some oid \<Rightarrow> if hashable oid then Inr (oid, loc) else Inl TypeError)
             bls of
        Inl e \<Rightarrow> Inl e
      | Inr ps \<Rightarrow> Inr (dict_of ps))"

definition object_map_of :: "json list \<Rightarrow> error + (json \<times> json) list" where
  "object_map_of objects =
     (case try_map (\<lambda>ob. case (field ''blob_uuid'' ob, field ''data'' ob) of
                           (Some oid, Some dat) \<Rightarrow> if hashable oid then Inr (oid, dat) else Inl TypeError
                         | _ \<Rightarrow> Inl KeyError)
             objects of
        Inl e \<Rightarrow> Inl e
      | Inr ps \<Rightarrow> Inr (dict_of ps))"

definition to_insert_of ::
  "(json \<times> json) list \<Rightarrow> (json \<times> location) list \<Rightarrow> error + (location \<times> json) list" where
  "to_insert_of object_map object_info =
     (case try_map (\<lambda>(oid, loc). case map_of object_map oid of
                                   None \<Rightarrow> Inl KeyError
                                 | Some dat \<Rightarrow> Inr (loc, dat))
             object_info of
        Inl e \<Rightarrow> Inl e
      | Inr ps \<Rightarrow> Inr (dict_of ps))"

definition query_doc :: "load_keys \<Rightarrow> json list \<Rightarrow> json \<Rightarrow> error + json" where
  "query_doc load_keys blob_coll doc =
     (if truthy load_keys then
        (let locations = find_key ''blob_uuid'' False doc;
             blobs = map (pydash_get doc) locations
         in case filter_blobs blobs locations load_keys of
              Inl e \<Rightarrow> Inl e
            | Inr (blobs', locations') \<Rightarrow>
                (case object_info_of (zip blobs' locations') of
                   Inl e \<Rightarrow> Inl e
                 | Inr object_info \<Rightarrow>
                     (case object_map_of
                             (coll_query blob_coll [(''blob_uuid'', In (map fst object_info))]
                                (Some (PList [''blob_uuid'', ''data''])) None 0 0) of
                        Inl e \<Rightarrow> Inl e
                      | Inr object_map \<Rightarrow>
                          (case to_insert_of object_map object_info of
                             Inl e \<Rightarrow> Inl e
                           | Inr to_insert \<Rightarrow> update_in_dictionary doc to_insert))))
      else Inr doc)"

text \<open>\<^verbatim>\<open>properties += ["uuid", "index"]\<close> and \<^verbatim>\<open>properties.update({"uuid": 1, "index": 1})\<close>.\<close>

fun add_identity :: "properties option \<Rightarrow> properties option" where
  "add_identity None = None"
| "add_identity (Some (PList ps)) = Some (PList (ps @ [''uuid'', ''index'']))"
| "add_identity (Some (PDict pd)) =
     Some (PDict (AList.update ''index'' 1 (AList.update ''uuid'' 1 pd)))"

text \<open>The generator \<^verbatim>\<open>query\<close> returns, per document of the collection's answer.\<close>

definition query_gen ::
  "jobstore \<Rightarrow> criteria \<Rightarrow> properties option \<Rightarrow> (string \<times> int) option \<Rightarrow> nat \<Rightarrow> nat
     \<Rightarrow> load_type option \<Rightarrow> (error + json) list" where
  "query_gen st crit props srt skip limit ld =
     (let load_keys = prepare_load (Some (case ld of None \<Rightarrow> load st | Some l \<Rightarrow> l));
          docs = coll_query (docs_store st) crit (add_identity props) srt skip limit
      in map (query_doc load_keys (data_store st)) docs)"

definition query ::
  "jobstore \<Rightarrow> criteria \<Rightarrow> properties option \<Rightarrow> (string \<times> int) option \<Rightarrow> nat \<Rightarrow> nat
     \<Rightarrow> load_type option \<Rightarrow> json list \<times> error option" where
  "query st crit props srt skip limit ld = run_gen (query_gen st crit props srt skip limit ld)"

text \<open>\<^verbatim>\<open>next(docs, None)\<close> on the query limited to one document.\<close>

definition query_one ::
  "jobstore \<Rightarrow> criteria \<Rightarrow> properties option \<Rightarrow> (string \<times> int) option
     \<Rightarrow> load_type option \<Rightarrow> error + json option" where
  "query_one st crit props srt ld =
     (case query_gen st crit props srt 0 1 ld of
        [] \<Rightarrow> Inr None
      | Inl e # rs \<Rightarrow> Inl e
      | Inr d # rs \<Rightarrow> Inr (Some d))"

subsection \<open>update\<close>

text \<open>
  The save keys of one call: the store's own for \<^verbatim>\<open>None\<close> and \<^verbatim>\<open>True\<close>, none for \<^verbatim>\<open>False\<close>,
  else what the caller gave.
\<close>

fun save_keys_of :: "jobstore \<Rightarrow> save_type option \<Rightarrow> string list" where
  "save_keys_of st None = save st"
| "save_keys_of st (Some (SaveBool True)) = save st"
| "save_keys_of st (Some (SaveBool False)) = []"
| "save_keys_of st (Some (SaveOne s)) = [s]"
| "save_keys_of st (Some (SaveList ss)) = ss"

text \<open>
  \<^verbatim>\<open>object_info = {k: _get_blob_info(o) for k, o in object_map.items()}\<close>: one call of
  \<^verbatim>\<open>suuid()\<close> per item, the first of them being call number \<open>n\<close> of the store.
\<close>

fun blob_infos :: "(nat \<Rightarrow> string) \<Rightarrow> nat \<Rightarrow> (location \<times> json) list \<Rightarrow> (location \<times> json) list" where
  "blob_infos ids n [] = []"
| "blob_infos ids n ((loc, ob) # items) =
     (loc, get_blob_info ob (ids n)) # blob_infos ids (Suc n) items"

text \<open>
  \<^verbatim>\<open>blob.update({"data": data, "job_uuid": doc["uuid"], "job_index": doc["index"]})\<close> for one
  item of \<open>object_map\<close>; \<open>doc\<close> is the document after the stubs were written into it.
\<close>

definition make_blob :: "json \<Rightarrow> (location \<times> json) list \<Rightarrow> location \<times> json \<Rightarrow> error + json" where
  "make_blob doc object_info item =
     (case map_of object_info (fst item) of
        None \<Rightarrow> Inl KeyError
      | Some (JObj info) \<Rightarrow>
          (case (field ''uuid'' doc, field ''index'' doc) of
             (Some u, Some i) \<Rightarrow>
               Inr (JObj (AList.update ''job_index'' i
                           (AList.update ''job_uuid'' u
                             (AList.update ''data'' (snd item) info))))
           | _ \<Rightarrow> Inl KeyError)
      | Some _ \<Rightarrow> Inl TypeError)"

text \<open>
  The body of the loop over the documents: the document with the stubs in it, the blobs
  it gives, and the number of \<^verbatim>\<open>suuid()\<close> calls after it.
\<close>

definition stage_doc ::
  "string list \<Rightarrow> (nat \<Rightarrow> string) \<Rightarrow> nat \<Rightarrow> json \<Rightarrow> error + (json \<times> json list \<times> nat)" where
  "stage_doc save_keys ids n doc =
     (if save_keys \<noteq> [] then
        (let locations = concat (map (\<lambda>save_key. find_key save_key True doc) save_keys);
             objects = map (pydash_get doc) locations;
             object_map = dict_of (zip locations objects);
             object_info = blob_infos ids n object_map
         in case update_in_dictionary doc object_info of
              Inl e \<Rightarrow> Inl e
            | Inr doc' \<Rightarrow>
                (case try_map (make_blob doc' object_info) object_map of
                   Inl e \<Rightarrow> Inl e
                 | Inr blobs \<Rightarrow> Inr (doc', blobs, n + length object_map)))
      else Inr (doc, [], n))"

fun stage_docs ::
  "string list \<Rightarrow> (nat \<Rightarrow> string) \<Rightarrow> nat \<Rightarrow> json list
     \<Rightarrow> error + (json list \<times> json list \<times> nat)" where
  "stage_docs save_keys ids n [] = Inr ([], [], n)"
| "stage_docs save_keys ids n (doc # docs) =
     (case stage_doc save_keys ids n doc of
        Inl e \<Rightarrow> Inl e
      | Inr (doc', blobs, n') \<Rightarrow>
          (case stage_docs save_keys ids n' docs of
             Inl e \<Rightarrow> Inl e
           | Inr (dict_docs, blob_data, n'') \<Rightarrow> Inr (doc' # dict_docs, blobs @ blob_data, n'')))"

text \<open>
  \<^verbatim>\<open>if key is not None: key = ["uuid", "index"]\<close>, then \<^verbatim>\<open>self.docs_store.update(dict_docs,
  key=key)\<close>: the collection falls back on its own key field, which \<^verbatim>\<open>__init__\<close> set to
  \<^verbatim>\<open>"uuid"\<close>, when the key it is given is \<^verbatim>\<open>None\<close>.
\<close>

fun update_key :: "string list option \<Rightarrow> string list" where
  "update_key None = [''uuid'']"
| "update_key (Some k) = [''uuid'', ''index'']"

text \<open>
  The store after the call, and the error that ended the call if one did. Staging raises
  before anything is written; an error of the second upsert leaves the first one done.
\<close>

definition update ::
  "jobstore \<Rightarrow> json list \<Rightarrow> string list option \<Rightarrow> save_type option
     \<Rightarrow> jobstore \<times> error option" where
  "update st docs key sv =
     (let save_keys = save_keys_of st sv
      in case stage_docs save_keys (suuid_values st) (suuid_calls st) docs of
           Inl e \<Rightarrow> (st, Some e)
         | Inr (dict_docs, blob_data, n) \<Rightarrow>
             (case coll_update (docs_store st) dict_docs (update_key key) of
                Inl e \<Rightarrow> (st\<lparr>suuid_calls := n\<rparr>, Some e)
              | Inr ds \<Rightarrow>
                  (if save_keys \<noteq> [] then
                     (case coll_update (data_store st) blob_data [''blob_uuid''] of
                        Inl e \<Rightarrow> (st\<lparr>docs_store := ds, suuid_calls := n\<rparr>, Some e)
                      | Inr bs \<Rightarrow>
                          (st\<lparr>docs_store := ds, data_store := bs, suuid_calls := n\<rparr>, None))
                   else (st\<lparr>docs_store := ds, suuid_calls := n\<rparr>, None))))"

subsection \<open>get\_output\<close>

datatype outputs = Single json | Many "json list"

definition get_output ::
  "jobstore \<Rightarrow> string \<Rightarrow> string \<Rightarrow> load_type option \<Rightarrow> error + outputs" where
  "get_output st uuid which ld =
     (if which = ''last'' \<or> which = ''first'' then
        (case query_one st [(''uuid'', Eq (JStr uuid))] (Some (PList [''output'']))
                (Some (''index'', if which = ''last'' then - 1 else 1)) ld of
           Inl e \<Rightarrow> Inl e
         | Inr None \<Rightarrow> Inl ValueError
         | Inr (Some result) \<Rightarrow>
             (case field ''output'' result of
                None \<Rightarrow> Inl KeyError
              | Some out \<Rightarrow> Inr (Single out)))
      else
        (case query st [(''uuid'', Eq (JStr uuid))] (Some (PList [''output'']))
                (Some (''index'', - 1)) 0 0 ld of
           (results, Some e) \<Rightarrow> Inl e
         | (results, None) \<Rightarrow>
             (if length results = 0 then Inl ValueError
              else (case try_map (\<lambda>r. case field ''output'' r of
                                          None \<Rightarrow> Inl KeyError
                                        | Some out \<Rightarrow> Inr out) results of
                      Inl e \<Rightarrow> Inl e
                    | Inr outs \<Rightarrow> Inr (Many outs)))))"

subsection \<open>remove\_docs\<close>

text \<open>
  The loop over the generator: a document is produced (its stubs resolved against the
  blob collection as it is then), and the blobs of its uuid and index are removed. The
  result lists the blob collection after each removal.
\<close>

fun remove_blobs ::
  "load_keys \<Rightarrow> json list \<Rightarrow> json list \<Rightarrow> json list list \<times> error option" where
  "remove_blobs load_keys [] blob_coll = ([], None)"
| "remove_blobs load_keys (raw # docs) blob_coll =
     (case query_doc load_keys blob_coll raw of
        Inl e \<Rightarrow> ([], Some e)
      | Inr doc \<Rightarrow>
          (case (field ''uuid'' doc, field ''index'' doc) of
             (Some u, Some i) \<Rightarrow>
               (let blob_coll' =
                      coll_remove blob_coll [(''job_uuid'', Eq u), (''job_index'', Eq i)]
                in case remove_blobs load_keys docs blob_coll' of
                     (steps, r) \<Rightarrow> (blob_coll' # steps, r))
           | _ \<Rightarrow> ([], Some KeyError)))"

text \<open>
  The store after each call \<^verbatim>\<open>remove_docs\<close> makes on a backing collection, in order: the
  removals from the blob collection, then the one from the document collection.
\<close>

definition remove_docs_steps :: "jobstore \<Rightarrow> criteria \<Rightarrow> jobstore list \<times> error option" where
  "remove_docs_steps st crit =
     (let docs = coll_query (docs_store st) crit
                   (add_identity (Some (PList [''uuid'', ''index'']))) None 0 0
      in case remove_blobs (prepare_load (Some (load st))) docs (data_store st) of
           (steps, Some e) \<Rightarrow> (map (\<lambda>b. st\<lparr>data_store := b\<rparr>) steps, Some e)
         | (steps, None) \<Rightarrow>
             (map (\<lambda>b. st\<lparr>data_store := b\<rparr>) steps
                @ [st\<lparr>docs_store := coll_remove (docs_store st) crit,
                      data_store := last (data_store st # steps)\<rparr>], None))"

definition remove_docs :: "jobstore \<Rightarrow> criteria \<Rightarrow> jobstore \<times> error option" where
  "remove_docs st crit =
     (case remove_docs_steps st crit of (steps, r) \<Rightarrow> (last (st # steps), r))"

subsection \<open>groupby\<close>

text \<open>
  The grouping keys are field names. \<^verbatim>\<open>pydash.has(doc, k)\<close> is \<open>has_key\<close>;
  \<^verbatim>\<open>pydash.get(obj, k)\<close> gives the field, and \<^verbatim>\<open>None\<close> where \<open>obj\<close> has none (also when \<open>obj\<close> is
  no dict).
\<close>

definition get_field :: "json \<Rightarrow> string \<Rightarrow> json" where
  "get_field ob k = (case field k ob of None \<Rightarrow> JNull | Some v \<Rightarrow> v)"













section \<open>Vocabulary of the specification\<close>

text \<open>
  Spec 3: a Document is a record with the mandatory fields \<open>uuid\<close> and \<open>index\<close>, the
  revision number; as a Python dict it has each key once.
\<close>

definition is_document :: "json \<Rightarrow> bool" where
  "is_document d =
     (case d of
        JObj kvs \<Rightarrow>
          distinct (map fst kvs) \<and>
          (case (map_of kvs ''uuid'', map_of kvs ''index'') of
             (Some (JStr u), Some (JInt i)) \<Rightarrow> True
           | _ \<Rightarrow> False)
      | _ \<Rightarrow> False)"

text \<open>A blob is owned by the document whose uuid and index it carries.\<close>

definition owned_by :: "json \<Rightarrow> json \<Rightarrow> bool" where
  "owned_by d blob =
     (case (field ''uuid'' d, field ''index'' d) of
        (Some u, Some i) \<Rightarrow> field ''job_uuid'' blob = Some u \<and> field ''job_index'' blob = Some i
      | _ \<Rightarrow> False)"

text \<open>
  Spec 4.2 and 4.4: a reference stub is a dict with the sentinel key \<open>blob_uuid\<close>; the stubs
  of a document are at the locations \<^verbatim>\<open>find_key(doc, "blob_uuid")\<close> finds, and a stub's id is
  what it has under that key.
\<close>

definition stubs_of :: "json \<Rightarrow> location list" where
  "stubs_of doc = find_key ''blob_uuid'' False doc"

definition stub_id :: "json \<Rightarrow> location \<Rightarrow> json option" where
  "stub_id doc loc = field ''blob_uuid'' (pydash_get doc loc)"

text \<open>
  Spec 4.4, step 3, in its words: a type-tag selector matches a stub whose type tag it
  equals, a field-name selector one whose location ends in that name. A stub is selected
  by a list of selectors when one of them matches.
\<close>

fun stub_matches :: "selector \<Rightarrow> json \<Rightarrow> location \<Rightarrow> bool" where
  "stub_matches (TypeSel m c) stub loc =
     (field ''@class'' stub = Some (JStr c) \<and> field ''@module'' stub = Some (JStr m))"
| "stub_matches (FieldSel s) stub loc = (loc \<noteq> [] \<and> last loc = Key s)"

definition selected :: "selector list \<Rightarrow> json \<Rightarrow> location \<Rightarrow> bool" where
  "selected sels doc loc = list_ex (\<lambda>sel. stub_matches sel (pydash_get doc loc) loc) sels"

text \<open>
  The blob collection holds the value \<open>v\<close> under the id \<open>oid\<close>: it has a record of that id,
  and its records of that id have \<open>v\<close> as their data.
\<close>

definition blob_data :: "json list \<Rightarrow> json \<Rightarrow> json \<Rightarrow> bool" where
  "blob_data coll oid v =
     (list_ex (\<lambda>r. field ''blob_uuid'' r = Some oid) coll \<and>
      list_all (\<lambda>r. field ''blob_uuid'' r = Some oid \<longrightarrow> field ''data'' r = Some v) coll)"

text \<open>
  What the data model (spec 3) says of a stored document and its stubs, for the stubs
  \<open>sel\<close> that are to be resolved: the document is well-formed and is not itself a stub; no
  stub lies inside another and no two stubs share an id; the ids are strings; and the blob
  of every stub to be resolved is in the blob collection.
\<close>

definition stubs_ok :: "json list \<Rightarrow> (location \<Rightarrow> bool) \<Rightarrow> json \<Rightarrow> bool" where
  "stubs_ok coll sel doc =
     (wf_json doc \<and> [] \<notin> set (stubs_of doc) \<and>
      (\<forall>p\<in>set (stubs_of doc). \<forall>q\<in>set (stubs_of doc).
         p \<noteq> q \<longrightarrow> p \<parallel> q \<and> stub_id doc p \<noteq> stub_id doc q) \<and>
      (\<forall>loc\<in>set (stubs_of doc).
         (\<exists>s. stub_id doc loc = Some (JStr s)) \<and>
         (sel loc \<longrightarrow> (\<exists>oid v. stub_id doc loc = Some oid \<and> blob_data coll oid v))))"

text \<open>
  \<open>doc'\<close> is \<open>doc\<close> with exactly the stubs \<open>sel\<close> resolved: the location of such a stub
  holds the data of its blob, any other stub's location holds what it held.
\<close>

definition resolved :: "json list \<Rightarrow> (location \<Rightarrow> bool) \<Rightarrow> json \<Rightarrow> json \<Rightarrow> bool" where
  "resolved coll sel doc doc' =
     (\<forall>loc\<in>set (stubs_of doc).
        (sel loc \<longrightarrow>
           (\<exists>oid v. stub_id doc loc = Some oid \<and> blob_data coll oid v \<and> get_in doc' loc = Some v)) \<and>
        (\<not> sel loc \<longrightarrow> get_in doc' loc = get_in doc loc))"

text \<open>The stored documents of one uuid, in the collection's order.\<close>

definition docs_of :: "jobstore \<Rightarrow> string \<Rightarrow> json list" where
  "docs_of st uuid = filter (\<lambda>d. field ''uuid'' d = Some (JStr uuid)) (docs_store st)"

section \<open>Example stores\<close>

text \<open>A stand-in for the values \<^verbatim>\<open>suuid()\<close> returns: \<open>b\<close>, \<open>bb\<close>, \<open>bbb\<close>, ...\<close>

definition example_ids :: "nat \<Rightarrow> string" where
  "example_ids n = replicate (Suc n) (CHR ''b'')"

definition empty_store :: "string list \<Rightarrow> jobstore" where
  "empty_store sv =
     \<lparr>docs_store = [], data_store = [], save = sv, load = LoadBool False,
      suuid_values = example_ids, suuid_calls = 0\<rparr>"

text \<open>Two runs of job \<open>U\<close>, with outputs 10 and 20 (spec 8).\<close>

definition run1 :: json where
  "run1 = JObj [(''uuid'', JStr ''U''), (''index'', JInt 1), (''output'', JInt 10)]"

definition run2 :: json where
  "run2 = JObj [(''uuid'', JStr ''U''), (''index'', JInt 2), (''output'', JInt 20)]"

definition runs_store :: jobstore where
  "runs_store = (empty_store [])\<lparr>docs_store := [run1, run2]\<rparr>"

text \<open>A document whose \<open>data\<close> field is offloaded, and the store that holds it.\<close>

definition data_doc :: json where
  "data_doc = JObj [(''uuid'', JStr ''U''), (''index'', JInt 1),
                    (''output'', JObj [(''data'', JInt 5), (''note'', JStr ''ok'')])]"

definition data_stub :: json where
  "data_stub = JObj [(''@class'', JStr []), (''@module'', JStr []), (''blob_uuid'', JStr ''b'')]"

definition stored_doc :: json where
  "stored_doc = JObj [(''uuid'', JStr ''U''), (''index'', JInt 1),
                      (''output'', JObj [(''data'', data_stub), (''note'', JStr ''ok'')])]"

definition data_blob :: json where
  "data_blob = JObj [(''@class'', JStr []), (''@module'', JStr []), (''blob_uuid'', JStr ''b''),
                     (''data'', JInt 5), (''job_uuid'', JStr ''U''), (''job_index'', JInt 1)]"

definition data_store_ex :: jobstore where
  "data_store_ex =
     (empty_store [''data''])\<lparr>docs_store := [stored_doc], data_store := [data_blob],
                               suuid_calls := 1\<rparr>"

text \<open>A second job \<open>V\<close> with a blob of its own, next to \<open>U\<close>.\<close>

definition other_doc :: json where
  "other_doc = JObj [(''uuid'', JStr ''V''), (''index'', JInt 1),
                     (''data'', JObj [(''@class'', JStr []), (''@module'', JStr []),
                                      (''blob_uuid'', JStr ''bb'')])]"

definition other_blob :: json where
  "other_blob = JObj [(''@class'', JStr []), (''@module'', JStr []), (''blob_uuid'', JStr ''bb''),
                      (''data'', JStr ''big''), (''job_uuid'', JStr ''V''), (''job_index'', JInt 1)]"

definition two_jobs_store :: jobstore where
  "two_jobs_store =
     (empty_store [''data''])\<lparr>docs_store := [stored_doc, other_doc],
                               data_store := [data_blob, other_blob], suuid_calls := 2\<rparr>"




text \<open>
  A stored document with two stubs, one of them tagged with a type, and their blobs.
\<close>

definition dos_stub :: json where
  "dos_stub = JObj [(''@class'', JStr ''Dos''), (''@module'', JStr ''emmet''),
                    (''blob_uuid'', JStr ''bb'')]"

definition tagged_doc :: json where
  "tagged_doc = JObj [(''uuid'', JStr ''U''), (''index'', JInt 1),
                      (''output'', JObj [(''data'', data_stub), (''dos'', dos_stub)])]"

definition dos_blob :: json where
  "dos_blob = JObj [(''@class'', JStr ''Dos''), (''@module'', JStr ''emmet''),
                    (''blob_uuid'', JStr ''bb''), (''data'', JArr [JInt 1, JInt 2]),
                    (''job_uuid'', JStr ''U''), (''job_index'', JInt 1)]"

definition tagged_store :: jobstore where
  "tagged_store =
     (empty_store [''data'', ''dos''])\<lparr>docs_store := [tagged_doc],
                                       data_store := [data_blob, dos_blob], suuid_calls := 2\<rparr>"

section \<open>Basic facts\<close>

lemmas example_defs = empty_store_def runs_store_def run1_def run2_def data_doc_def
  data_stub_def stored_doc_def data_blob_def data_store_ex_def example_ids_def

lemmas store_defs = update_def stage_doc_def Let_def dict_of_def pydash_get_def
  get_blob_info_def make_blob_def coll_update_def matches_def get_output_def query_one_def
  query_gen_def coll_query_def query_doc_def sort_val_def query_def filter_blobs_def
  object_info_of_def object_map_of_def to_insert_of_def

lemma run_gen_map_Inr: "run_gen (map Inr xs) = (xs, None)"
  by (induction xs) auto

lemma try_map_map_Inr:
  "\<forall>x\<in>set xs. f (h x) = Inr (g x) \<Longrightarrow> try_map f (map h xs) = Inr (map g xs)"
  by (induction xs) auto

lemma query_doc_not_truthy: "\<not> truthy lk \<Longrightarrow> query_doc lk b d = Inr d"
  by (simp add: query_doc_def)

lemma query_gen_not_truthy:
  assumes "\<not> truthy (prepare_load (Some (case ld of None \<Rightarrow> load st | Some l \<Rightarrow> l)))"
  shows "query_gen st crit props srt skip limit ld =
         map Inr (coll_query (docs_store st) crit (add_identity props) srt skip limit)"
  using assms by (simp add: query_gen_def Let_def query_doc_not_truthy)

lemma coll_query_no_match:
  assumes "\<forall>d\<in>set coll. \<not> matches crit d"
  shows "coll_query coll crit props srt skip limit = []"
proof -
  have "filter (matches crit) coll = []" using assms by (simp add: filter_empty_conv)
  then show ?thesis by (cases srt) (auto simp: coll_query_def)
qed

lemma coll_query_first:
  "coll_query coll crit props srt 0 (Suc 0) =
     map (project props) (take 1 (sort_docs srt (filter (matches crit) coll)))"
  by (simp add: coll_query_def)

lemma coll_query_all:
  "coll_query coll crit props srt 0 0 =
     map (project props) (sort_docs srt (filter (matches crit) coll))"
  by (simp add: coll_query_def)

lemma matches_uuid: "matches [(''uuid'', Eq v)] d = (field ''uuid'' d = Some v)"
  by (auto simp: matches_def split: option.splits)

lemma filter_matches_uuid:
  "filter (matches [(''uuid'', Eq (JStr uuid))]) (docs_store st) = docs_of st uuid"
  unfolding docs_of_def by (rule filter_cong) (simp_all add: matches_uuid)

lemma map_of_filter_keys:
  "map_of (filter (\<lambda>(k, v). P k) kvs) k = (if P k then map_of kvs k else None)"
  by (induction kvs) auto

lemma field_project:
  "field k (project (Some p) d) = (if k \<in> set (wanted p) then field k d else None)"
  by (cases d) (simp_all add: map_of_filter_keys)

lemma hd_sort_key_least:
  assumes "xs \<noteq> []"
  shows "hd (sort_key f xs) \<in> set xs \<and> (\<forall>x\<in>set xs. f (hd (sort_key f xs)) \<le> f x)"
proof -
  let ?s = "sort_key f xs"
  have ne: "?s \<noteq> []" using assms by (metis length_sort length_0_conv)
  then obtain y ys where s: "?s = y # ys" by (cases ?s) auto
  have "sorted (map f ?s)" by (rule sorted_sort_key)
  then have "\<forall>x\<in>set ys. f y \<le> f x" by (simp add: s)
  moreover have "set ?s = set xs" by simp
  ultimately show ?thesis using s by (metis hd_in_set list.sel(1) ne order_refl set_ConsD)
qed

lemma last_sort_key_greatest:
  assumes "xs \<noteq> []"
  shows "last (sort_key f xs) \<in> set xs \<and> (\<forall>x\<in>set xs. f x \<le> f (last (sort_key f xs)))"
proof -
  let ?s = "sort_key f xs"
  have ne: "?s \<noteq> []" using assms by (metis length_sort length_0_conv)
  have srt: "sorted (map f ?s)" by (rule sorted_sort_key)
  have st: "set ?s = set xs" by simp
  have "last ?s \<in> set ?s" using ne by (rule last_in_set)
  moreover have "\<forall>x\<in>set ?s. f x \<le> f (last ?s)"
  proof
    fix x assume "x \<in> set ?s"
    then obtain i where i: "i < length ?s" "?s ! i = x" by (metis in_set_conv_nth)
    have "map f ?s ! i \<le> map f ?s ! (length ?s - 1)"
      using srt i ne by (intro sorted_nth_mono) auto
    then show "f x \<le> f (last ?s)" using i ne by (simp add: last_conv_nth)
  qed
  ultimately show ?thesis unfolding st by blast
qed

subsection \<open>Top-level fields survive the read pipeline\<close>

lemma set_in_has_key:
  assumes "set_in d p v = Inr d'" and "has_key k d"
  shows "has_key k d'"
proof -
  obtain kvs where d: "d = JObj kvs" using assms(2) by (cases d) (auto simp: has_key_def)
  show ?thesis
  proof (cases p)
    case Nil
    then show ?thesis using assms by simp
  next
    case (Cons s p')
    show ?thesis
    proof (cases s)
      case (Key k')
      have "\<exists>c. d' = JObj (AList.update k' c kvs)"
        using assms(1) unfolding d Cons Key
        by (cases p') (auto split: option.splits sum.splits)
      then show ?thesis using assms(2) unfolding d
        by (auto simp: has_key_def update_conv')
    next
      case (Idx i)
      then show ?thesis using assms(1) unfolding d Cons by simp
    qed
  qed
qed

lemma update_in_dictionary_has_key:
  "update_in_dictionary d ups = Inr d' \<Longrightarrow> has_key k d \<Longrightarrow> has_key k d'"
proof (induction ups arbitrary: d)
  case Nil
  then show ?case by simp
next
  case (Cons a ups)
  obtain loc v where a: "a = (loc, v)" by (cases a)
  from Cons.prems(1) obtain d1 where s: "set_in d loc v = Inr d1"
    and r: "update_in_dictionary d1 ups = Inr d'"
    unfolding a by (auto split: sum.splits)
  show ?case using Cons.IH [OF r] set_in_has_key [OF s Cons.prems(2)] by simp
qed

lemma query_doc_has_key:
  assumes "query_doc lk b d = Inr d'" and "has_key k d"
  shows "has_key k d'"
proof (cases "truthy lk")
  case False
  then show ?thesis using assms by (simp add: query_doc_def)
next
  case True
  from assms(1) obtain ups where "update_in_dictionary d ups = Inr d'"
    unfolding query_doc_def Let_def using True
    by (simp split: sum.splits prod.splits)
  then show ?thesis using assms(2) by (rule update_in_dictionary_has_key)
qed

lemma has_key_project:
  "k \<in> set (wanted p) \<Longrightarrow> has_key k d \<Longrightarrow> has_key k (project (Some p) d)"
  by (simp add: has_key_def field_project)

lemma set_sort_docs: "set (sort_docs srt xs) = set xs"
  by (cases srt) (auto split: if_splits)

lemma coll_query_subset:
  "set (coll_query coll crit props srt skip limit) \<subseteq> project props ` set coll"
proof -
  let ?f = "drop skip (sort_docs srt (filter (matches crit) coll))"
  have f: "set ?f \<subseteq> set coll"
    using set_drop_subset [of skip "sort_docs srt (filter (matches crit) coll)"]
    by (auto simp: set_sort_docs)
  have t: "set (take limit ?f) \<subseteq> set coll"
    using set_take_subset [of limit ?f] f by blast
  show ?thesis
  proof (cases "limit = 0")
    case True
    then show ?thesis using f by (simp add: coll_query_def image_mono)
  next
    case False
    then show ?thesis using t by (simp add: coll_query_def image_mono)
  qed
qed

lemma run_gen_set: "x \<in> set (fst (run_gen rs)) \<Longrightarrow> Inr x \<in> set rs"
proof (induction rs arbitrary: x)
  case Nil
  then show ?case by simp
next
  case (Cons r rs)
  then show ?case by (cases r) (auto split: prod.splits)
qed

lemma wanted_add_identity_dict:
  "''uuid'' \<in> set (wanted (PDict (AList.update ''index'' 1 (AList.update ''uuid'' 1 pd))))
   \<and> ''index'' \<in> set (wanted (PDict (AList.update ''index'' 1 (AList.update ''uuid'' 1 pd))))"
proof -
  let ?al = "AList.update ''index'' (1::int) (AList.update ''uuid'' 1 pd)"
  let ?f = "filter (\<lambda>(k, n). n \<noteq> 0) ?al"
  have "map_of ?al ''uuid'' = Some 1" by (simp add: update_conv')
  then have "(''uuid'', 1) \<in> set ?al" by (rule map_of_SomeD)
  then have u: "(''uuid'', 1) \<in> set ?f" by simp
  have "map_of ?al ''index'' = Some 1" by (simp add: update_conv')
  then have "(''index'', 1) \<in> set ?al" by (rule map_of_SomeD)
  then have i: "(''index'', 1) \<in> set ?f" by simp
  have "fst (''uuid'', 1::int) \<in> fst ` set ?f" using u by (rule imageI)
  moreover have "fst (''index'', 1::int) \<in> fst ` set ?f" using i by (rule imageI)
  ultimately show ?thesis by simp
qed

lemma wanted_add_identity:
  assumes "add_identity props = Some p"
  shows "''uuid'' \<in> set (wanted p) \<and> ''index'' \<in> set (wanted p)"
proof (cases props)
  case None
  then show ?thesis using assms by simp
next
  case (Some q)
  show ?thesis
  proof (cases q)
    case (PList ps)
    then have "p = PList (ps @ [''uuid'', ''index''])" using assms Some by simp
    then show ?thesis by simp
  next
    case (PDict pd)
    then have "p = PDict (AList.update ''index'' 1 (AList.update ''uuid'' 1 pd))"
      using assms Some by simp
    then show ?thesis using wanted_add_identity_dict [of pd] by simp
  qed
qed

subsection \<open>Removing the blobs of projected documents\<close>

lemma find_key_items_empty:
  "\<forall>(k, v)\<in>set kvs. find_key key ie v = [] \<Longrightarrow> find_key_items key ie kvs = []"
  by (induction kvs) auto

lemma map_of_distinct_in:
  "distinct (map fst kvs) \<Longrightarrow> (k, v) \<in> set kvs \<Longrightarrow> map_of kvs k = Some v"
  by simp

lemma find_key_projected_identity:
  assumes "is_document d"
  shows "find_key ''blob_uuid'' False
           (project (Some (PList [''uuid'', ''index'', ''uuid'', ''index''])) d) = []"
proof -
  from assms obtain kvs u i where d: "d = JObj kvs" and dist: "distinct (map fst kvs)"
    and u: "map_of kvs ''uuid'' = Some (JStr u)" and i: "map_of kvs ''index'' = Some (JInt i)"
    unfolding is_document_def by (auto split: json.splits option.splits)
  let ?F = "filter (\<lambda>(k, v). k \<in> set [''uuid'', ''index'', ''uuid'', ''index'']) kvs"
  have vals: "\<forall>(k, v)\<in>set ?F. find_key ''blob_uuid'' False v = []"
  proof (clarify)
    fix k v assume kv: "(k, v) \<in> set ?F"
    then have in_kvs: "(k, v) \<in> set kvs" and k: "k = ''uuid'' \<or> k = ''index''" by auto
    have "map_of kvs k = Some v" using dist in_kvs by simp
    then have "v = JStr u \<or> v = JInt i" using k u i by auto
    then show "find_key ''blob_uuid'' False v = []" by auto
  qed
  have nokey: "''blob_uuid'' \<notin> fst ` set ?F" by auto
  show ?thesis unfolding d
    using nokey find_key_items_empty [OF vals] by simp
qed

lemma query_doc_no_stub:
  assumes "find_key ''blob_uuid'' False d = []"
  shows "query_doc lk b d = Inr d"
proof (cases "truthy lk")
  case False
  then show ?thesis by (simp add: query_doc_def)
next
  case True
  have fb: "filter_blobs [] [] lk = Inr ([], [])"
    by (simp add: filter_blobs_def split: load_keys.splits bool.splits list.splits)
  have cq: "coll_query b [(''blob_uuid'', In [])] props None 0 0 = []" for props
    by (rule coll_query_no_match) (simp add: matches_def split: option.splits)
  show ?thesis
    using True assms
    by (simp add: query_doc_def fb object_info_of_def dict_of_def cq object_map_of_def
        to_insert_of_def)
qed

lemma matches_owner:
  "matches [(''job_uuid'', Eq u), (''job_index'', Eq i)] blob
     = (field ''job_uuid'' blob = Some u \<and> field ''job_index'' blob = Some i)"
  by (auto simp: matches_def split: option.splits)

lemma remove_blobs_clean:
  assumes "\<forall>r\<in>set rs. find_key ''blob_uuid'' False r = []
              \<and> has_key ''uuid'' r \<and> has_key ''index'' r"
  shows "\<exists>steps. remove_blobs lk rs b = (steps, None) \<and> length steps = length rs
           \<and> last (b # steps) = filter (\<lambda>blob. \<not> (\<exists>r\<in>set rs. owned_by r blob)) b"
  using assms
proof (induction rs arbitrary: b)
  case Nil
  then show ?case by simp
next
  case (Cons r rs)
  from Cons.prems obtain u i where u: "field ''uuid'' r = Some u" and i: "field ''index'' r = Some i"
    by (auto simp: has_key_def)
  have q: "query_doc lk b r = Inr r"
    using Cons.prems by (intro query_doc_no_stub) simp
  let ?b' = "coll_remove b [(''job_uuid'', Eq u), (''job_index'', Eq i)]"
  have b': "?b' = filter (\<lambda>blob. \<not> owned_by r blob) b"
    unfolding coll_remove_def by (rule filter_cong) (simp_all add: matches_owner owned_by_def u i)
  from Cons.IH [of ?b'] Cons.prems obtain steps where
    st: "remove_blobs lk rs ?b' = (steps, None)" and len: "length steps = length rs"
    and lst: "last (?b' # steps) = filter (\<lambda>blob. \<not> (\<exists>r\<in>set rs. owned_by r blob)) ?b'"
    by auto
  have r: "remove_blobs lk (r # rs) b = (?b' # steps, None)"
    by (simp add: q u i st)
  have "last (b # ?b' # steps) = last (?b' # steps)" by simp
  also have "\<dots> = filter (\<lambda>blob. \<not> (\<exists>r\<in>set rs. owned_by r blob)) (filter (\<lambda>blob. \<not> owned_by r blob) b)"
    using lst b' by simp
  also have "\<dots> = filter (\<lambda>blob. \<not> (\<exists>r'\<in>set (r # rs). owned_by r' blob)) b"
    unfolding filter_filter by (rule filter_cong) auto
  finally show ?case using r len by auto
qed

lemma owned_by_project:
  "''uuid'' \<in> set (wanted p) \<Longrightarrow> ''index'' \<in> set (wanted p)
     \<Longrightarrow> owned_by (project (Some p) d) blob = owned_by d blob"
  by (simp add: owned_by_def field_project)

lemma is_document_has_keys: "is_document d \<Longrightarrow> has_key ''uuid'' d \<and> has_key ''index'' d"
  by (auto simp: is_document_def has_key_def split: json.splits option.splits)

subsection \<open>Sorting and grouping key tuples of integers\<close>
















subsection \<open>Reading and writing at locations\<close>

lemma set_in_obj:
  "set_in (JObj kvs) (Key k # p) v =
     (if p = [] then Inr (JObj (AList.update k v kvs))
      else case map_of kvs k of
             None \<Rightarrow> Inl KeyError
           | Some c \<Rightarrow> (case set_in c p v of
                          Inl e \<Rightarrow> Inl e
                        | Inr c' \<Rightarrow> Inr (JObj (AList.update k c' kvs))))"
  by (cases p) (auto split: option.splits)

lemma set_in_arr:
  "set_in (JArr xs) (Idx i # p) v =
     (if i < length xs
      then (if p = [] then Inr (JArr (xs[i := v]))
            else case set_in (xs ! i) p v of
                   Inl e \<Rightarrow> Inl e
                 | Inr c' \<Rightarrow> Inr (JArr (xs[i := c'])))
      else Inl IndexError)"
  by (cases p) auto

lemma set_in_Inr_cases:
  assumes "set_in t (s # p) v = Inr t'"
  obtains (obj) kvs k c' where "t = JObj kvs" "s = Key k" "t' = JObj (AList.update k c' kvs)"
      "p = [] \<and> c' = v \<or> p \<noteq> [] \<and> (\<exists>c. map_of kvs k = Some c \<and> set_in c p v = Inr c')"
    | (arr) xs i c' where "t = JArr xs" "s = Idx i" "i < length xs" "t' = JArr (xs[i := c'])"
      "p = [] \<and> c' = v \<or> p \<noteq> [] \<and> set_in (xs ! i) p v = Inr c'"
proof (cases t)
  case (JObj kvs)
  show ?thesis
  proof (cases s)
    case (Key k)
    show ?thesis using assms unfolding JObj Key set_in_obj
      by (auto split: if_splits option.splits sum.splits intro: obj [OF JObj Key])
  next
    case (Idx i)
    then show ?thesis using assms JObj by simp
  qed
next
  case (JArr xs)
  show ?thesis
  proof (cases s)
    case (Key k)
    then show ?thesis using assms JArr by simp
  next
    case (Idx i)
    show ?thesis using assms unfolding JArr Idx set_in_arr
      by (auto split: if_splits sum.splits intro: arr [OF JArr Idx])
  qed
qed (use assms in simp_all)

lemma get_in_obj:
  "get_in (JObj kvs) (s # p) =
     (case s of Key k \<Rightarrow> (case map_of kvs k of None \<Rightarrow> None | Some c \<Rightarrow> get_in c p)
              | Idx i \<Rightarrow> None)"
  by (cases s) simp_all

lemma get_in_arr:
  "get_in (JArr xs) (s # p) =
     (case s of Idx i \<Rightarrow> (if i < length xs then get_in (xs ! i) p else None)
              | Key k \<Rightarrow> None)"
  by (cases s) simp_all

lemma set_in_get_same:
  "get_in t p \<noteq> None \<Longrightarrow> p \<noteq> []
     \<Longrightarrow> \<exists>t'. set_in t p v = Inr t' \<and> get_in t' p = Some v"
proof (induction p arbitrary: t)
  case Nil
  then show ?case by simp
next
  case (Cons s p)
  show ?case
  proof (cases t)
    case (JObj kvs)
    from Cons.prems(1) obtain k c where s: "s = Key k" and c: "map_of kvs k = Some c"
      and g: "get_in c p \<noteq> None"
      unfolding JObj get_in_obj by (auto split: seg.splits option.splits)
    show ?thesis
    proof (cases "p = []")
      case True
      then show ?thesis unfolding JObj s by (simp add: update_conv')
    next
      case False
      from Cons.IH [OF g False] obtain c' where "set_in c p v = Inr c'" "get_in c' p = Some v"
        by blast
      then show ?thesis unfolding JObj s set_in_obj using False c by (simp add: update_conv')
    qed
  next
    case (JArr xs)
    from Cons.prems(1) obtain i where s: "s = Idx i" and i: "i < length xs"
      and g: "get_in (xs ! i) p \<noteq> None"
      unfolding JArr get_in_arr by (auto split: seg.splits if_splits)
    show ?thesis
    proof (cases "p = []")
      case True
      then show ?thesis unfolding JArr s using i by simp
    next
      case False
      from Cons.IH [OF g False] obtain c' where "set_in (xs ! i) p v = Inr c'" "get_in c' p = Some v"
        by blast
      then show ?thesis unfolding JArr s set_in_arr using False i by simp
    qed
  qed (use Cons.prems in simp_all)
qed

lemma parallel_Cons_same: "(s # p) \<parallel> (s # q) \<Longrightarrow> p \<parallel> q"
  by (simp add: parallel_def)

lemma parallel_Cons_nonempty: "(s # p) \<parallel> (s # q) \<Longrightarrow> p \<noteq> []"
  by (auto simp: parallel_def)

lemma set_in_get_other:
  "set_in t p v = Inr t' \<Longrightarrow> p \<parallel> q \<Longrightarrow> get_in t' q = get_in t q"
proof (induction p arbitrary: t t' q)
  case Nil
  then show ?case by simp
next
  case (Cons s p)
  from Cons.prems(2) obtain s' q' where q: "q = s' # q'"
    by (cases q) (auto simp: parallel_def)
  from Cons.prems(1) show ?case
  proof (cases rule: set_in_Inr_cases)
    case (obj kvs k c')
    show ?thesis
    proof (cases "s' = s")
      case True
      have par: "p \<parallel> q'" and ne: "p \<noteq> []"
        using Cons.prems(2) unfolding q True
        by (rule parallel_Cons_same, rule parallel_Cons_nonempty)
      from obj(4) ne obtain c where c: "map_of kvs k = Some c" "set_in c p v = Inr c'" by auto
      have "get_in c' q' = get_in c q'" using c(2) par by (rule Cons.IH)
      then show ?thesis unfolding q True obj(1,2,3) using c(1) by (simp add: update_conv')
    next
      case False
      then show ?thesis unfolding q obj(1,2,3) get_in_obj
        by (cases s') (auto simp: update_conv')
    qed
  next
    case (arr xs i c')
    show ?thesis
    proof (cases "s' = s")
      case True
      have par: "p \<parallel> q'" and ne: "p \<noteq> []"
        using Cons.prems(2) unfolding q True
        by (rule parallel_Cons_same, rule parallel_Cons_nonempty)
      from arr(5) ne have c: "set_in (xs ! i) p v = Inr c'" by auto
      have "get_in c' q' = get_in (xs ! i) q'" using c par by (rule Cons.IH)
      then show ?thesis unfolding q True arr(1,2,4) using arr(3) by simp
    next
      case False
      then show ?thesis unfolding q arr(1,2,4) get_in_arr
        by (cases s') (auto simp: arr(3))
    qed
  qed
qed

lemma update_in_dictionary_parallel:
  assumes "\<forall>pv\<in>set ups. get_in t (fst pv) \<noteq> None \<and> fst pv \<noteq> []"
    and "sorted_wrt (\<parallel>) (map fst ups)"
  shows "\<exists>t'. update_in_dictionary t ups = Inr t'
           \<and> (\<forall>pv\<in>set ups. get_in t' (fst pv) = Some (snd pv))
           \<and> (\<forall>q. (\<forall>pv\<in>set ups. fst pv \<parallel> q) \<longrightarrow> get_in t' q = get_in t q)"
  using assms
proof (induction ups arbitrary: t)
  case Nil
  then show ?case by simp
next
  case (Cons pv ups)
  obtain p v where pv: "pv = (p, v)" by (cases pv)
  have valid: "get_in t p \<noteq> None" "p \<noteq> []" using Cons.prems(1) pv by auto
  from set_in_get_same [OF valid] obtain t1 where t1: "set_in t p v = Inr t1"
    and g1: "get_in t1 p = Some v" by blast
  have par: "\<forall>pv'\<in>set ups. p \<parallel> fst pv'" using Cons.prems(2) pv by auto
  have same: "get_in t1 q = get_in t q" if "p \<parallel> q" for q
    using t1 that by (rule set_in_get_other)
  have v1: "\<forall>pv'\<in>set ups. get_in t1 (fst pv') \<noteq> None \<and> fst pv' \<noteq> []"
    using Cons.prems(1) par same by auto
  have s1: "sorted_wrt (\<parallel>) (map fst ups)" using Cons.prems(2) by simp
  from Cons.IH [OF v1 s1] obtain t' where u: "update_in_dictionary t1 ups = Inr t'"
    and a: "\<forall>pv'\<in>set ups. get_in t' (fst pv') = Some (snd pv')"
    and b: "\<forall>q. (\<forall>pv'\<in>set ups. fst pv' \<parallel> q) \<longrightarrow> get_in t' q = get_in t1 q"
    by blast
  have "\<forall>pv'\<in>set ups. fst pv' \<parallel> p" using par by (auto simp: parallel_commute)
  then have gp: "get_in t' p = Some v" using b g1 by simp
  have r: "update_in_dictionary t (pv # ups) = Inr t'" unfolding pv by (simp add: t1 u)
  have c1: "\<forall>pv'\<in>set (pv # ups). get_in t' (fst pv') = Some (snd pv')"
    using a gp pv by simp
  have c2: "\<forall>q. (\<forall>pv'\<in>set (pv # ups). fst pv' \<parallel> q) \<longrightarrow> get_in t' q = get_in t q"
    using b same pv by simp
  show ?case using r c1 c2 by blast
qed

subsection \<open>What find\_key finds\<close>

lemma find_key_items_iff:
  "loc \<in> set (find_key_items key ie kvs)
     \<longleftrightarrow> (\<exists>k v l. (k, v) \<in> set kvs \<and> l \<in> set (find_key key ie v) \<and> loc = Key k # l)"
proof (induction kvs)
  case Nil
  then show ?case by simp
next
  case (Cons kv kvs)
  obtain k0 v0 where kv: "kv = (k0, v0)" by (cases kv)
  have "loc \<in> set (find_key_items key ie (kv # kvs))
          \<longleftrightarrow> (\<exists>l. l \<in> set (find_key key ie v0) \<and> loc = Key k0 # l)
              \<or> loc \<in> set (find_key_items key ie kvs)"
    unfolding kv by auto
  also have "\<dots> \<longleftrightarrow> (\<exists>l. l \<in> set (find_key key ie v0) \<and> loc = Key k0 # l)
              \<or> (\<exists>k v l. (k, v) \<in> set kvs \<and> l \<in> set (find_key key ie v) \<and> loc = Key k # l)"
    unfolding Cons.IH ..
  also have "\<dots> \<longleftrightarrow> (\<exists>k v l. (k, v) \<in> set (kv # kvs) \<and> l \<in> set (find_key key ie v) \<and> loc = Key k # l)"
    unfolding kv by (simp; blast)
  finally show ?case .
qed

lemma find_key_elems_iff:
  "loc \<in> set (find_key_elems key ie i xs)
     \<longleftrightarrow> (\<exists>j l. j < length xs \<and> l \<in> set (find_key key ie (xs ! j)) \<and> loc = Idx (i + j) # l)"
proof (induction xs arbitrary: i)
  case Nil
  then show ?case by simp
next
  case (Cons x xs)
  show ?case
  proof
    assume "loc \<in> set (find_key_elems key ie i (x # xs))"
    then consider l where "l \<in> set (find_key key ie x)" "loc = Idx i # l"
      | "loc \<in> set (find_key_elems key ie (Suc i) xs)" by auto
    then show "\<exists>j l. j < length (x # xs) \<and> l \<in> set (find_key key ie ((x # xs) ! j)) \<and> loc = Idx (i + j) # l"
    proof cases
      case 1
      then show ?thesis by (intro exI [of _ 0] exI [of _ l]) simp
    next
      case 2
      then obtain j l where "j < length xs" "l \<in> set (find_key key ie (xs ! j))" "loc = Idx (Suc i + j) # l"
        unfolding Cons.IH by blast
      then show ?thesis by (intro exI [of _ "Suc j"] exI [of _ l]) simp
    qed
  next
    assume "\<exists>j l. j < length (x # xs) \<and> l \<in> set (find_key key ie ((x # xs) ! j)) \<and> loc = Idx (i + j) # l"
    then obtain j l where j: "j < length (x # xs)" "l \<in> set (find_key key ie ((x # xs) ! j))"
      "loc = Idx (i + j) # l" by blast
    show "loc \<in> set (find_key_elems key ie i (x # xs))"
    proof (cases j)
      case 0
      then show ?thesis using j by simp
    next
      case (Suc j')
      then have "loc \<in> set (find_key_elems key ie (Suc i) xs)"
        unfolding Cons.IH using j by (intro exI [of _ j'] exI [of _ l]) simp
      then show ?thesis by simp
    qed
  qed
qed

lemma wf_items_in: "wf_items kvs \<Longrightarrow> (k, v) \<in> set kvs \<Longrightarrow> wf_json v"
  by (induction kvs) auto

lemma wf_elems_nth: "wf_elems xs \<Longrightarrow> j < length xs \<Longrightarrow> wf_json (xs ! j)"
proof (induction xs arbitrary: j)
  case Nil
  then show ?case by simp
next
  case (Cons x xs)
  then show ?case by (cases j) auto
qed

text \<open>What a found location of a well-formed value is, by the shape of the value.\<close>

lemma find_key_cases:
  assumes "loc \<in> set (find_key key ie t)" and "wf_json t"
  obtains (here) kvs where "t = JObj kvs" "key \<in> fst ` set kvs"
      "loc = (if ie then [Key key] else [])"
    | (item) kvs k v l where "t = JObj kvs" "map_of kvs k = Some v" "wf_json v"
      "l \<in> set (find_key key ie v)" "loc = Key k # l"
    | (elem) xs j l where "t = JArr xs" "j < length xs" "wf_json (xs ! j)"
      "l \<in> set (find_key key ie (xs ! j))" "loc = Idx j # l"
proof (cases t)
  case (JObj kvs)
  from assms(1) consider "key \<in> fst ` set kvs" "loc = (if ie then [Key key] else [])"
    | "loc \<in> set (find_key_items key ie kvs)"
    unfolding JObj by (auto split: if_splits)
  then show ?thesis
  proof cases
    case 1
    then show ?thesis using here JObj by blast
  next
    case 2
    then obtain k v l where kv: "(k, v) \<in> set kvs" and l: "l \<in> set (find_key key ie v)"
      and loc: "loc = Key k # l" unfolding find_key_items_iff by blast
    have "map_of kvs k = Some v" using assms(2) kv unfolding JObj by simp
    moreover have "wf_json v" using assms(2) kv unfolding JObj by (auto intro: wf_items_in)
    ultimately show ?thesis using item JObj l loc by blast
  qed
next
  case (JArr xs)
  from assms(1) obtain j l where j: "j < length xs" and l: "l \<in> set (find_key key ie (xs ! j))"
    and loc: "loc = Idx j # l"
    unfolding JArr find_key.simps find_key_elems_iff by auto
  have "wf_json (xs ! j)" using assms(2) j unfolding JArr by (auto intro: wf_elems_nth)
  then show ?thesis using elem JArr j l loc by blast
qed (use assms in simp_all)

lemma find_key_stub:
  "loc \<in> set (find_key key False t) \<Longrightarrow> wf_json t
     \<Longrightarrow> \<exists>kvs. get_in t loc = Some (JObj kvs) \<and> key \<in> fst ` set kvs"
proof (induction loc arbitrary: t)
  case Nil
  from Nil.prems show ?case
    by (cases rule: find_key_cases) auto
next
  case (Cons s l)
  from Cons.prems show ?case
  proof (cases rule: find_key_cases)
    case (here kvs)
    then show ?thesis by simp
  next
    case (item kvs k v l')
    then show ?thesis using Cons.IH [of v] by simp
  next
    case (elem xs j l')
    then show ?thesis using Cons.IH [of "xs ! j"] by simp
  qed
qed

subsection \<open>Dicts built from pairs\<close>

lemma fold_update_map_of:
  "map_of (fold (\<lambda>(k, v) d. AList.update k v d) ps acc) k =
     (case map_of (rev ps) k of Some v \<Rightarrow> Some v | None \<Rightarrow> map_of acc k)"
proof (induction ps arbitrary: acc)
  case Nil
  then show ?case by simp
next
  case (Cons p ps)
  obtain k0 v0 where p: "p = (k0, v0)" by (cases p)
  show ?case unfolding p
    by (simp add: Cons.IH update_conv' map_add_def split: option.splits)
qed

lemma fold_update_distinct:
  "distinct (map fst acc) \<Longrightarrow> distinct (map fst (fold (\<lambda>(k, v) d. AList.update k v d) ps acc))"
proof (induction ps arbitrary: acc)
  case Nil
  then show ?case by simp
next
  case (Cons p ps)
  obtain k0 v0 where p: "p = (k0, v0)" by (cases p)
  show ?case unfolding p using Cons.prems by (simp add: Cons.IH distinct_update)
qed

lemma dict_of_distinct: "distinct (map fst (dict_of ps))"
  unfolding dict_of_def by (rule fold_update_distinct) simp

lemma dict_of_map_of: "map_of (dict_of ps) k = map_of (rev ps) k"
  unfolding dict_of_def fold_update_map_of by (simp split: option.splits)

lemma dict_of_set:
  assumes "single_valued (set ps)"
  shows "set (dict_of ps) = set ps"
proof (rule set_eqI)
  fix kv :: "'a \<times> 'b"
  obtain k v where kv: "kv = (k, v)" by (cases kv)
  have "kv \<in> set (dict_of ps) \<longleftrightarrow> map_of (dict_of ps) k = Some v"
    unfolding kv using dict_of_distinct [of ps] by simp
  also have "\<dots> \<longleftrightarrow> map_of (rev ps) k = Some v" unfolding dict_of_map_of ..
  also have "\<dots> \<longleftrightarrow> (k, v) \<in> set ps"
  proof
    assume "map_of (rev ps) k = Some v"
    then have "(k, v) \<in> set (rev ps)" by (rule map_of_SomeD)
    then show "(k, v) \<in> set ps" by simp
  next
    assume in_ps: "(k, v) \<in> set ps"
    then have "(k, v) \<in> set (rev ps)" by simp
    then obtain v' where v': "map_of (rev ps) k = Some v'" by (metis weak_map_of_SomeI)
    then have "(k, v') \<in> set ps" by (auto dest: map_of_SomeD)
    then have "v' = v" using assms in_ps by (auto dest: single_valuedD)
    then show "map_of (rev ps) k = Some v" using v' by simp
  qed
  finally show "kv \<in> set (dict_of ps) \<longleftrightarrow> kv \<in> set ps" unfolding kv .
qed

lemma dict_of_lookup:
  assumes "single_valued (set ps)" and "(k, v) \<in> set ps"
  shows "map_of (dict_of ps) k = Some v"
proof -
  have "(k, v) \<in> set (dict_of ps)" using assms by (simp add: dict_of_set)
  then show ?thesis using dict_of_distinct [of ps] by simp
qed

lemma sorted_wrt_pairwise:
  assumes "distinct xs" and "\<forall>x\<in>set xs. \<forall>y\<in>set xs. x \<noteq> y \<longrightarrow> P x y"
  shows "sorted_wrt P xs"
  using assms by (induction xs) auto

lemma sorted_wrt_sym_pairwise:
  assumes "sorted_wrt P xs" and "\<And>x y. P x y \<Longrightarrow> P y x"
    and "x \<in> set xs" and "y \<in> set xs" and "x \<noteq> y"
  shows "P x y"
  using assms(1,3,4,5)
proof (induction xs)
  case Nil
  then show ?case by simp
next
  case (Cons a xs)
  then show ?case using assms(2) by auto
qed

lemma try_map_Inr:
  "\<forall>x\<in>set xs. f x = Inr (g x) \<Longrightarrow> try_map f xs = Inr (map g xs)"
  using try_map_map_Inr [of xs f "\<lambda>x. x" g] by simp

subsection \<open>The steps of the read pipeline\<close>

lemma selects_matches: "loc \<noteq> [] \<Longrightarrow> selects sel b loc = Inr (stub_matches sel b loc)"
  by (cases sel) auto

lemma filter_blob_matches:
  "snd bl \<noteq> [] \<Longrightarrow>
   filter_blob sels bl =
     Inr (map (\<lambda>sel. bl) (filter (\<lambda>sel. stub_matches sel (fst bl) (snd bl)) sels))"
  by (induction sels) (simp_all add: selects_matches)

lemma filter_blobs_selected:
  assumes "[] \<notin> set L" and "sels \<noteq> []"
  shows "\<exists>FP. filter_blobs (map B L) L (LKeys sels) = Inr (map fst FP, map snd FP)
           \<and> set FP = {(B loc, loc) | loc.
                         loc \<in> set L \<and> list_ex (\<lambda>sel. stub_matches sel (B loc) loc) sels}"
proof -
  let ?g = "\<lambda>bl. map (\<lambda>sel. bl) (filter (\<lambda>sel. stub_matches sel (fst bl) (snd bl)) sels)"
  let ?Z = "zip (map B L) L"
  let ?FP = "concat (map ?g ?Z)"
  have z: "set ?Z = {(B loc, loc) | loc. loc \<in> set L}"
    by (induction L) auto
  have "\<forall>bl\<in>set ?Z. filter_blob sels bl = Inr (?g bl)"
  proof
    fix bl assume "bl \<in> set ?Z"
    then have "snd bl \<in> set L" unfolding z by auto
    then have "snd bl \<noteq> []" using assms(1) by auto
    then show "filter_blob sels bl = Inr (?g bl)" by (rule filter_blob_matches)
  qed
  then have tm: "try_map (filter_blob sels) ?Z = Inr (map ?g ?Z)"
    using try_map_map_Inr [of ?Z "filter_blob sels" "\<lambda>x. x" ?g] by simp
  obtain l ls where sels: "sels = l # ls" using assms(2) by (cases sels) auto
  have fb: "filter_blobs (map B L) L (LKeys sels) = Inr (map fst ?FP, map snd ?FP)"
    unfolding filter_blobs_def using tm unfolding sels by simp
  have "set ?FP = {bl \<in> set ?Z. list_ex (\<lambda>sel. stub_matches sel (fst bl) (snd bl)) sels}"
    by (auto simp: list_ex_iff)
  also have "\<dots> = {(B loc, loc) | loc.
                       loc \<in> set L \<and> list_ex (\<lambda>sel. stub_matches sel (B loc) loc) sels}"
    unfolding z by auto
  finally show ?thesis using fb by blast
qed

lemma object_info_ok:
  assumes "\<forall>bl\<in>set FP. \<exists>s. field ''blob_uuid'' (fst bl) = Some (JStr s)"
  shows "\<exists>IDs. object_info_of FP = Inr (dict_of IDs)
           \<and> set IDs = (\<lambda>bl. (the (field ''blob_uuid'' (fst bl)), snd bl)) ` set FP"
proof -
  let ?f = "\<lambda>(b, loc). case field ''blob_uuid'' b of
                          None \<Rightarrow> Inl KeyError
                        | Some oid \<Rightarrow> if hashable oid then Inr (oid, loc) else Inl TypeError"
  let ?g = "\<lambda>bl. (the (field ''blob_uuid'' (fst bl)), snd bl)"
  have "\<forall>bl\<in>set FP. ?f bl = Inr (?g bl)"
  proof
    fix bl assume "bl \<in> set FP"
    then obtain s where "field ''blob_uuid'' (fst bl) = Some (JStr s)" using assms by blast
    then show "?f bl = Inr (?g bl)" by (cases bl) simp
  qed
  then have "try_map ?f FP = Inr (map ?g FP)"
    using try_map_map_Inr [of FP ?f "\<lambda>x. x" ?g] by simp
  then have "object_info_of FP = Inr (dict_of (map ?g FP))"
    unfolding object_info_of_def by simp
  then show ?thesis by (intro exI [of _ "map ?g FP"]) simp
qed

lemma matches_in:
  "matches [(''blob_uuid'', In ids)] r = (\<exists>oid\<in>set ids. field ''blob_uuid'' r = Some oid)"
  by (auto simp: matches_def split: option.splits)

lemma blob_data_unique: "blob_data coll oid v \<Longrightarrow> blob_data coll oid v' \<Longrightarrow> v = v'"
  by (auto simp: blob_data_def list_ex_iff list_all_iff)

lemma object_map_ok:
  assumes "\<forall>oid\<in>set ids. \<exists>s v. oid = JStr s \<and> blob_data coll oid v"
  shows "\<exists>OM. object_map_of (coll_query coll [(''blob_uuid'', In ids)]
                   (Some (PList [''blob_uuid'', ''data''])) None 0 0) = Inr OM
           \<and> (\<forall>oid\<in>set ids. \<forall>v. blob_data coll oid v \<longrightarrow> map_of OM oid = Some v)"
proof -
  let ?P = "Some (PList [''blob_uuid'', ''data''])"
  let ?R = "filter (matches [(''blob_uuid'', In ids)]) coll"
  let ?f = "\<lambda>ob. case (field ''blob_uuid'' ob, field ''data'' ob) of
                    (Some oid, Some dat) \<Rightarrow> if hashable oid then Inr (oid, dat) else Inl TypeError
                  | _ \<Rightarrow> Inl KeyError"
  let ?h = "\<lambda>r. (the (field ''blob_uuid'' r), the (field ''data'' r))"
  have objs: "coll_query coll [(''blob_uuid'', In ids)] ?P None 0 0 = map (project ?P) ?R"
    by (simp add: coll_query_def)
  have rec: "\<exists>oid s v. oid \<in> set ids \<and> oid = JStr s \<and> blob_data coll oid v
               \<and> field ''blob_uuid'' r = Some oid \<and> field ''data'' r = Some v"
    if "r \<in> set ?R" for r
  proof -
    from that obtain oid where oid: "oid \<in> set ids" "field ''blob_uuid'' r = Some oid"
      and r: "r \<in> set coll" by (auto simp: matches_in)
    from assms oid(1) obtain s v where sv: "oid = JStr s" "blob_data coll oid v" by blast
    have "field ''data'' r = Some v"
      using sv(2) r oid(2) by (auto simp: blob_data_def list_all_iff)
    then show ?thesis using oid sv by blast
  qed
  have "\<forall>r\<in>set ?R. ?f (project ?P r) = Inr (?h r)"
  proof
    fix r assume "r \<in> set ?R"
    from rec [OF this] obtain oid s v where "oid = JStr s"
      "field ''blob_uuid'' r = Some oid" "field ''data'' r = Some v" by blast
    then show "?f (project ?P r) = Inr (?h r)" by (simp add: field_project)
  qed
  then have tm: "try_map ?f (map (project ?P) ?R) = Inr (map ?h ?R)"
    by (rule try_map_map_Inr)
  have om: "object_map_of (coll_query coll [(''blob_uuid'', In ids)] ?P None 0 0)
              = Inr (dict_of (map ?h ?R))"
    unfolding objs object_map_of_def tm by simp
  have sv: "single_valued (set (map ?h ?R))"
  proof (rule single_valuedI)
    fix k v v' assume "(k, v) \<in> set (map ?h ?R)" "(k, v') \<in> set (map ?h ?R)"
    then obtain r r' where r: "r \<in> set ?R" "?h r = (k, v)" and r': "r' \<in> set ?R" "?h r' = (k, v')"
      by auto
    from rec [OF r(1)] r(2) have "blob_data coll k v" by auto
    moreover from rec [OF r'(1)] r'(2) have "blob_data coll k v'" by auto
    ultimately show "v = v'" by (rule blob_data_unique)
  qed
  have "map_of (dict_of (map ?h ?R)) oid = Some v" if "oid \<in> set ids" "blob_data coll oid v" for oid v
  proof -
    from that(2) obtain r where r: "r \<in> set coll" "field ''blob_uuid'' r = Some oid"
      by (auto simp: blob_data_def list_ex_iff)
    have rR: "r \<in> set ?R" using r that(1) by (auto simp: matches_in)
    have "field ''data'' r = Some v" using that(2) r by (auto simp: blob_data_def list_all_iff)
    then have "(oid, v) \<in> set (map ?h ?R)" using rR r(2) by force
    then show ?thesis using sv by (intro dict_of_lookup)
  qed
  then show ?thesis using om by blast
qed

lemma to_insert_ok:
  assumes "\<forall>p\<in>set OI. map_of OM (fst p) \<noteq> None"
  shows "\<exists>TI0. to_insert_of OM OI = Inr (dict_of TI0)
           \<and> set TI0 = (\<lambda>p. (snd p, the (map_of OM (fst p)))) ` set OI"
proof -
  let ?f = "\<lambda>(oid, loc). case map_of OM oid of None \<Rightarrow> Inl KeyError | Some dat \<Rightarrow> Inr (loc, dat)"
  let ?g = "\<lambda>p. (snd p, the (map_of OM (fst p)))"
  have "\<forall>p\<in>set OI. ?f p = Inr (?g p)"
    using assms by (auto split: option.splits)
  then have "try_map ?f OI = Inr (map ?g OI)"
    using try_map_map_Inr [of OI ?f "\<lambda>x. x" ?g] by simp
  then have "to_insert_of OM OI = Inr (dict_of (map ?g OI))"
    unfolding to_insert_of_def by simp
  then show ?thesis by (intro exI [of _ "map ?g OI"]) simp
qed

lemma pydash_get_Some: "get_in doc loc = Some v \<Longrightarrow> pydash_get doc loc = v"
  by (simp add: pydash_get_def)

lemma query_doc_generic:
  assumes ok: "stubs_ok coll S doc" and tr: "truthy lk"
    and fb: "filter_blobs (map (pydash_get doc) (stubs_of doc)) (stubs_of doc) lk
               = Inr (map fst FP, map snd FP)"
    and FP: "set FP = {(pydash_get doc loc, loc) | loc. loc \<in> set (stubs_of doc) \<and> S loc}"
  shows "\<exists>doc'. query_doc lk coll doc = Inr doc' \<and> resolved coll S doc doc'"
proof -
  let ?L = "stubs_of doc"
  let ?B = "pydash_get doc"
  have wf: "wf_json doc" and nonroot: "[] \<notin> set ?L"
    and pw: "\<And>p q. p \<in> set ?L \<Longrightarrow> q \<in> set ?L \<Longrightarrow> p \<noteq> q
               \<Longrightarrow> p \<parallel> q \<and> stub_id doc p \<noteq> stub_id doc q"
    and str: "\<And>loc. loc \<in> set ?L \<Longrightarrow> \<exists>s. stub_id doc loc = Some (JStr s)"
    and dat: "\<And>loc. loc \<in> set ?L \<Longrightarrow> S loc
                \<Longrightarrow> \<exists>oid v. stub_id doc loc = Some oid \<and> blob_data coll oid v"
    using ok unfolding stubs_ok_def by blast+
  have inj: "loc = loc'" if "loc \<in> set ?L" "loc' \<in> set ?L" "stub_id doc loc = stub_id doc loc'"
    for loc loc'
    using pw that by blast
  have valid: "get_in doc loc \<noteq> None \<and> loc \<noteq> []" if "loc \<in> set ?L" for loc
  proof -
    have "\<exists>kvs. get_in doc loc = Some (JObj kvs) \<and> ''blob_uuid'' \<in> fst ` set kvs"
      using that wf unfolding stubs_of_def by (rule find_key_stub)
    then show ?thesis using that nonroot by auto
  qed
  have pairwise: "loc \<parallel> loc'" if "loc \<in> set ?L" "loc' \<in> set ?L" "loc \<noteq> loc'" for loc loc'
    using pw that by blast
  \<comment> \<open>the filtered blobs\<close>
  have zipFP: "zip (map fst FP) (map snd FP) = FP" by (rule zip_map_fst_snd)
  \<comment> \<open>their ids\<close>
  have "\<forall>bl\<in>set FP. \<exists>s. field ''blob_uuid'' (fst bl) = Some (JStr s)"
    unfolding FP using str by (auto simp: stub_id_def)
  from object_info_ok [OF this] obtain IDs where
    oi: "object_info_of FP = Inr (dict_of IDs)"
    and IDs: "set IDs = (\<lambda>bl. (the (field ''blob_uuid'' (fst bl)), snd bl)) ` set FP"
    by blast
  have IDs': "set IDs = {(oid, loc) | oid loc.
                 loc \<in> set ?L \<and> S loc \<and> stub_id doc loc = Some oid}"
  proof (rule set_eqI)
    fix p :: "json \<times> location"
    obtain oid loc where p: "p = (oid, loc)" by (cases p)
    have FPi: "set FP = (\<lambda>loc. (?B loc, loc)) ` {loc \<in> set ?L. S loc}"
      unfolding FP by auto
    have "set IDs = (\<lambda>loc. (the (stub_id doc loc), loc)) ` {loc \<in> set ?L. S loc}"
      unfolding IDs FPi image_image by (simp add: stub_id_def)
    then have "p \<in> set IDs \<longleftrightarrow> loc \<in> set ?L \<and> S loc
             \<and> oid = the (stub_id doc loc)"
      unfolding p by auto
    also have "\<dots> \<longleftrightarrow> loc \<in> set ?L \<and> S loc \<and> stub_id doc loc = Some oid"
      using str by (metis option.sel)
    finally show "p \<in> set IDs \<longleftrightarrow> p \<in> {(oid, loc) | oid loc.
                 loc \<in> set ?L \<and> S loc \<and> stub_id doc loc = Some oid}"
      unfolding p by simp
  qed
  have svIDs: "single_valued (set IDs)"
    unfolding IDs' by (rule single_valuedI) (auto intro: inj)
  let ?OI = "dict_of IDs"
  have OI: "set ?OI = set IDs" using svIDs by (rule dict_of_set)
  have dOI: "distinct (map fst ?OI)" by (rule dict_of_distinct)
  \<comment> \<open>the fetched blobs\<close>
  have "\<forall>oid\<in>set (map fst ?OI). \<exists>s v. oid = JStr s \<and> blob_data coll oid v"
  proof
    fix oid assume "oid \<in> set (map fst ?OI)"
    then obtain loc where "(oid, loc) \<in> set IDs" unfolding OI [symmetric] by auto
    then have l: "loc \<in> set ?L" "S loc" "stub_id doc loc = Some oid"
      unfolding IDs' by auto
    from str [OF l(1)] l(3) obtain s where "oid = JStr s" by auto
    moreover from dat [OF l(1,2)] l(3) obtain v where "blob_data coll oid v" by auto
    ultimately show "\<exists>s v. oid = JStr s \<and> blob_data coll oid v" by blast
  qed
  from object_map_ok [OF this] obtain OM where
    om: "object_map_of (coll_query coll [(''blob_uuid'', In (map fst ?OI))]
           (Some (PList [''blob_uuid'', ''data''])) None 0 0) = Inr OM"
    and OM: "\<And>oid v. oid \<in> set (map fst ?OI) \<Longrightarrow> blob_data coll oid v \<Longrightarrow> map_of OM oid = Some v"
    by blast
  have OMloc: "\<exists>v. blob_data coll oid v \<and> map_of OM oid = Some v" if "(oid, loc) \<in> set ?OI" for oid loc
  proof -
    have l: "loc \<in> set ?L" "S loc" "stub_id doc loc = Some oid"
      using that unfolding OI IDs' by auto
    from dat [OF l(1,2)] l(3) obtain v where v: "blob_data coll oid v" by auto
    have "oid \<in> set (map fst ?OI)" using that by force
    then show ?thesis using OM v by blast
  qed
  \<comment> \<open>the values to insert\<close>
  have "\<forall>p\<in>set ?OI. map_of OM (fst p) \<noteq> None"
    using OMloc by (metis option.distinct(1) prod.collapse)
  from to_insert_ok [OF this] obtain TI0 where
    ti: "to_insert_of OM ?OI = Inr (dict_of TI0)"
    and TI0: "set TI0 = (\<lambda>p. (snd p, the (map_of OM (fst p)))) ` set ?OI"
    by blast
  have TI0': "loc \<in> set ?L \<and> S loc
               \<and> (\<exists>oid. stub_id doc loc = Some oid \<and> blob_data coll oid v)"
    if "(loc, v) \<in> set TI0" for loc v
  proof -
    from that obtain oid where o: "(oid, loc) \<in> set ?OI" and v: "v = the (map_of OM oid)"
      unfolding TI0 by auto
    have l: "loc \<in> set ?L" "S loc" "stub_id doc loc = Some oid"
      using o unfolding OI IDs' by auto
    from OMloc [OF o] v have "blob_data coll oid v" by auto
    then show ?thesis using l by blast
  qed
  have svTI: "single_valued (set TI0)"
  proof (rule single_valuedI)
    fix loc v v' assume a: "(loc, v) \<in> set TI0" "(loc, v') \<in> set TI0"
    from TI0' [OF a(1)] TI0' [OF a(2)] show "v = v'"
      by (auto dest: blob_data_unique)
  qed
  let ?TI = "dict_of TI0"
  have TI: "set ?TI = set TI0" using svTI by (rule dict_of_set)
  have dTI: "distinct (map fst ?TI)" by (rule dict_of_distinct)
  have TIsel: "\<exists>v. (loc, v) \<in> set ?TI" if "loc \<in> set ?L" "S loc" for loc
  proof -
    from str [OF that(1)] obtain s where s: "stub_id doc loc = Some (JStr s)" by blast
    have "(JStr s, loc) \<in> set ?OI" unfolding OI IDs' using that s by simp
    then have "(snd (JStr s, loc), the (map_of OM (fst (JStr s, loc)))) \<in> set TI0"
      unfolding TI0 by (rule imageI)
    then show ?thesis unfolding TI by auto
  qed
  \<comment> \<open>writing them\<close>
  have v1: "\<forall>pv\<in>set ?TI. get_in doc (fst pv) \<noteq> None \<and> fst pv \<noteq> []"
  proof
    fix pv assume "pv \<in> set ?TI"
    then have "(fst pv, snd pv) \<in> set TI0" unfolding TI by simp
    from TI0' [OF this] show "get_in doc (fst pv) \<noteq> None \<and> fst pv \<noteq> []"
      using valid by blast
  qed
  have inL: "fst pv \<in> set ?L \<and> S (fst pv)" if "pv \<in> set ?TI" for pv
  proof -
    have "(fst pv, snd pv) \<in> set TI0" using that unfolding TI by simp
    from TI0' [OF this] show ?thesis by blast
  qed
  have v2: "sorted_wrt (\<parallel>) (map fst ?TI)"
    using dTI
  proof (rule sorted_wrt_pairwise)
    show "\<forall>x\<in>set (map fst ?TI). \<forall>y\<in>set (map fst ?TI). x \<noteq> y \<longrightarrow> x \<parallel> y"
      using inL pairwise by auto
  qed
  from update_in_dictionary_parallel [OF v1 v2] obtain doc' where
    up: "update_in_dictionary doc ?TI = Inr doc'"
    and got: "\<And>pv. pv \<in> set ?TI \<Longrightarrow> get_in doc' (fst pv) = Some (snd pv)"
    and kept: "\<And>q. (\<forall>pv\<in>set ?TI. fst pv \<parallel> q) \<Longrightarrow> get_in doc' q = get_in doc q"
    by blast
  have q: "query_doc lk coll doc = Inr doc'"
    unfolding query_doc_def Let_def stubs_of_def [symmetric]
    using tr by (simp add: fb zipFP oi om ti up)
  have r: "resolved coll S doc doc'"
    unfolding resolved_def
  proof (intro ballI conjI impI)
    fix loc assume l: "loc \<in> set ?L" and s: "S loc"
    from TIsel [OF l s] obtain v where v: "(loc, v) \<in> set ?TI" by blast
    then have "(loc, v) \<in> set TI0" unfolding TI .
    from TI0' [OF this] obtain oid where "stub_id doc loc = Some oid" "blob_data coll oid v"
      by blast
    moreover have "get_in doc' loc = Some v" using got [OF v] by simp
    ultimately show "\<exists>oid v. stub_id doc loc = Some oid \<and> blob_data coll oid v
                        \<and> get_in doc' loc = Some v" by blast
  next
    fix loc assume l: "loc \<in> set ?L" and s: "\<not> S loc"
    have "\<forall>pv\<in>set ?TI. fst pv \<parallel> loc"
    proof
      fix pv assume "pv \<in> set ?TI"
      from inL [OF this] have "fst pv \<in> set ?L" "fst pv \<noteq> loc" using s by auto
      then show "fst pv \<parallel> loc" using l by (intro pairwise)
    qed
    then show "get_in doc' loc = get_in doc loc" by (rule kept)
  qed
  show ?thesis using q r by blast
qed

lemma query_doc_resolved:
  assumes ok: "stubs_ok coll (selected sels doc) doc" and ne: "sels \<noteq> []"
  shows "\<exists>doc'. query_doc (LKeys sels) coll doc = Inr doc'
           \<and> resolved coll (selected sels doc) doc doc'"
proof -
  have nonroot: "[] \<notin> set (stubs_of doc)" using ok unfolding stubs_ok_def by blast
  from filter_blobs_selected [OF nonroot ne, of "pydash_get doc"] obtain FP where
    fb: "filter_blobs (map (pydash_get doc) (stubs_of doc)) (stubs_of doc) (LKeys sels)
           = Inr (map fst FP, map snd FP)"
    and FP: "set FP = {(pydash_get doc loc, loc) | loc.
                         loc \<in> set (stubs_of doc) \<and> selected sels doc loc}"
    unfolding selected_def by blast
  have tr: "truthy (LKeys sels)" using ne by simp
  show ?thesis using ok tr fb FP by (rule query_doc_generic)
qed

lemma query_doc_all:
  assumes ok: "stubs_ok coll (\<lambda>loc. True) doc"
  shows "\<exists>doc'. query_doc (LBool True) coll doc = Inr doc'
           \<and> resolved coll (\<lambda>loc. True) doc doc'"
proof -
  let ?L = "stubs_of doc"
  let ?FP = "zip (map (pydash_get doc) ?L) ?L"
  have m: "map fst ?FP = map (pydash_get doc) ?L" "map snd ?FP = ?L" by simp_all
  have fb: "filter_blobs (map (pydash_get doc) ?L) ?L (LBool True)
              = Inr (map fst ?FP, map snd ?FP)"
    unfolding m by (simp add: filter_blobs_def)
  have "set (zip (map g xs) xs) = {(g x, x) | x. x \<in> set xs \<and> True}" for g :: "location \<Rightarrow> json" and xs
    by (induction xs) auto
  then have FP: "set ?FP = {(pydash_get doc loc, loc) | loc. loc \<in> set ?L \<and> True}" .
  have tr: "truthy (LBool True)" by simp
  show ?thesis using ok tr fb FP by (rule query_doc_generic)
qed

lemma run_gen_all2:
  assumes "\<forall>x\<in>set xs. \<exists>y. f x = Inr y \<and> R x y"
  shows "\<exists>ys. run_gen (map f xs) = (ys, None) \<and> list_all2 R xs ys"
  using assms
proof (induction xs)
  case Nil
  then show ?case by simp
next
  case (Cons x xs)
  from Cons.prems obtain y where y: "f x = Inr y" "R x y" by auto
  from Cons.IH Cons.prems obtain ys where ys: "run_gen (map f xs) = (ys, None)" "list_all2 R xs ys"
    by auto
  have "run_gen (map f (x # xs)) = (y # ys, None)" by (simp add: y(1) ys(1))
  moreover have "list_all2 R (x # xs) (y # ys)" using y(2) ys(2) by simp
  ultimately show ?case by blast
qed

lemma resolved_none: "resolved coll (selected [] doc) doc doc"
  by (simp add: resolved_def selected_def)

section \<open>The key of the document upsert (C3)\<close>

text \<open>
  C3. The default call of \<^verbatim>\<open>update\<close> (no key) leaves the key \<^verbatim>\<open>None\<close>, and the document
  collection upserts by its own key field \<open>uuid\<close>: of two documents with one uuid and the
  indices 1 and 2, written to an empty store, only the second remains. With a key given,
  whatever it is, the upsert is by uuid and index, and both remain.
\<close>

theorem update_default_key_overwrites:
  "update_key None = [''uuid'']
   \<and> docs_store (fst (update (empty_store []) [run1, run2] None None)) = [run2]
   \<and> docs_store (fst (update (empty_store []) [run1, run2] (Some [''uuid'']) None))
       = [run1, run2]"
  by (simp add: example_defs store_defs)

section \<open>Selective resolution (C4)\<close>

text \<open>
  C4. For a LoadSpec given as a list of selectors, and documents whose stubs are as the data
  model has them (\<open>stubs_ok\<close>), \<^verbatim>\<open>query\<close> raises no error and yields, for every document of the
  collection's answer, that document with exactly the selected stubs resolved: the location
  of a stub that some selector matches (a type tag equal to the stub's, or a field name
  equal to the last segment of its location) holds the data of its blob, and the location
  of every other stub still holds the stub.
\<close>

theorem query_resolves_selected:
  assumes "\<forall>doc\<in>set (coll_query (docs_store st) crit (add_identity props) srt skip limit).
             stubs_ok (data_store st) (selected (map prepare_ltype ls) doc) doc"
  shows "\<exists>out. query st crit props srt skip limit (Some (LoadList ls)) = (out, None)
           \<and> list_all2 (\<lambda>doc. resolved (data_store st) (selected (map prepare_ltype ls) doc) doc)
                 (coll_query (docs_store st) crit (add_identity props) srt skip limit) out"
proof -
  let ?sels = "map prepare_ltype ls"
  let ?raw = "coll_query (docs_store st) crit (add_identity props) srt skip limit"
  have g: "query st crit props srt skip limit (Some (LoadList ls))
             = run_gen (map (query_doc (LKeys ?sels) (data_store st)) ?raw)"
    by (simp add: query_def query_gen_def)
  have "\<forall>doc\<in>set ?raw. \<exists>doc'. query_doc (LKeys ?sels) (data_store st) doc = Inr doc'
            \<and> resolved (data_store st) (selected ?sels doc) doc doc'"
  proof
    fix doc assume d: "doc \<in> set ?raw"
    show "\<exists>doc'. query_doc (LKeys ?sels) (data_store st) doc = Inr doc'
            \<and> resolved (data_store st) (selected ?sels doc) doc doc'"
    proof (cases "?sels = []")
      case True
      then show ?thesis by (simp add: query_doc_def resolved_none)
    next
      case False
      have "stubs_ok (data_store st) (selected ?sels doc) doc" using assms d by blast
      then show ?thesis using False by (rule query_doc_resolved)
    qed
  qed
  from run_gen_all2 [OF this] show ?thesis unfolding g .
qed

theorem query_resolves_selected_witness:
  "query tagged_store [] None None 0 0 (Some (LoadList [LClass ''emmet'' ''Dos'']))
     = ([JObj [(''uuid'', JStr ''U''), (''index'', JInt 1),
               (''output'', JObj [(''data'', data_stub), (''dos'', JArr [JInt 1, JInt 2])])]],
        None)
   \<and> query tagged_store [] None None 0 0 (Some (LoadList [LStr ''data'']))
     = ([JObj [(''uuid'', JStr ''U''), (''index'', JInt 1),
               (''output'', JObj [(''data'', JInt 5), (''dos'', dos_stub)])]],
        None)"
proof -
  have raw: "coll_query (docs_store tagged_store) [] (add_identity None) None 0 0 = [tagged_doc]"
    by (simp add: tagged_store_def empty_store_def coll_query_def matches_def)
  have stubs: "stubs_of tagged_doc = [[Key ''output'', Key ''data''], [Key ''output'', Key ''dos'']]"
    by (simp add: stubs_of_def tagged_doc_def data_stub_def dos_stub_def)
  have ok: "stubs_ok (data_store tagged_store)
              (selected (map prepare_ltype [LClass ''emmet'' ''Dos'']) tagged_doc) tagged_doc"
    unfolding stubs_ok_def stubs
    by (simp add: tagged_store_def empty_store_def tagged_doc_def data_stub_def dos_stub_def
        data_blob_def dos_blob_def stub_id_def pydash_get_def selected_def blob_data_def
        parallel_def)
  have h: "\<forall>doc\<in>set (coll_query (docs_store tagged_store) [] (add_identity None) None 0 0).
             stubs_ok (data_store tagged_store)
               (selected (map prepare_ltype [LClass ''emmet'' ''Dos'']) doc) doc"
    unfolding raw using ok by simp
  have e: "query tagged_store [] None None 0 0 (Some (LoadList [LClass ''emmet'' ''Dos'']))
     = ([JObj [(''uuid'', JStr ''U''), (''index'', JInt 1),
               (''output'', JObj [(''data'', data_stub), (''dos'', JArr [JInt 1, JInt 2])])]],
        None)
   \<and> query tagged_store [] None None 0 0 (Some (LoadList [LStr ''data'']))
     = ([JObj [(''uuid'', JStr ''U''), (''index'', JInt 1),
               (''output'', JObj [(''data'', JInt 5), (''dos'', dos_stub)])]],
        None)"
    by (simp add: tagged_store_def empty_store_def tagged_doc_def data_stub_def dos_stub_def
        data_blob_def dos_blob_def store_defs)
  show ?thesis using query_resolves_selected [OF h] e by simp
qed

section \<open>get\_output: which document (C5)\<close>

lemma get_output_one:
  assumes nt: "\<not> truthy (prepare_load (Some (case ld of None \<Rightarrow> load st | Some l \<Rightarrow> l)))"
    and w: "which = ''last'' \<or> which = ''first''"
    and ne: "sort_docs (Some (''index'', if which = ''last'' then - 1 else 1)) (docs_of st uuid) = d # ds"
    and out: "field ''output'' d = Some out"
  shows "get_output st uuid which ld = Inr (Single out)"
proof (cases "which = ''last''")
  case True
  then show ?thesis using out ne
    by (simp add: get_output_def query_one_def query_gen_not_truthy [OF nt] coll_query_first
        filter_matches_uuid field_project del: sort_docs.simps)
next
  case False
  then show ?thesis using w out ne
    by (simp add: get_output_def query_one_def query_gen_not_truthy [OF nt] coll_query_first
        filter_matches_uuid field_project del: sort_docs.simps)
qed

text \<open>
  C5. For a uuid with at least one stored document (each with an \<open>output\<close> field, read with
  load NONE, the default of \<^verbatim>\<open>get_output\<close>): \<open>which = "last"\<close> returns the output of a
  document whose index is the greatest among the documents of that uuid, \<open>"first"\<close> the
  output of one whose index is the least, and \<open>"all"\<close> the outputs of all documents of the
  uuid, by descending index.
\<close>

theorem get_output_which:
  assumes ne: "docs_of st uuid \<noteq> []"
    and out: "\<forall>d\<in>set (docs_of st uuid). has_key ''output'' d"
    and ld: "ld = Some (LoadBool False) \<or> (ld = None \<and> load st = LoadBool False)"
  shows "(\<exists>d\<in>set (docs_of st uuid).
            (\<forall>e\<in>set (docs_of st uuid). sort_val ''index'' e \<le> sort_val ''index'' d) \<and>
            get_output st uuid ''last'' ld = Inr (Single (get_field d ''output'')))
       \<and> (\<exists>d\<in>set (docs_of st uuid).
            (\<forall>e\<in>set (docs_of st uuid). sort_val ''index'' d \<le> sort_val ''index'' e) \<and>
            get_output st uuid ''first'' ld = Inr (Single (get_field d ''output'')))
       \<and> (\<exists>ds. mset ds = mset (docs_of st uuid) \<and>
            sorted (rev (map (sort_val ''index'') ds)) \<and>
            get_output st uuid ''all'' ld = Inr (Many (map (\<lambda>d. get_field d ''output'') ds)))"
proof (intro conjI)
  let ?D = "docs_of st uuid"
  have nt: "\<not> truthy (prepare_load (Some (case ld of None \<Rightarrow> load st | Some l \<Rightarrow> l)))"
    using ld by auto
  have outf: "field ''output'' d = Some (get_field d ''output'')" if "d \<in> set ?D" for d
    using out that by (auto simp: has_key_def get_field_def)
  have rne: "rev ?D \<noteq> []" using ne by simp
  show "\<exists>d\<in>set ?D. (\<forall>e\<in>set ?D. sort_val ''index'' e \<le> sort_val ''index'' d) \<and>
          get_output st uuid ''last'' ld = Inr (Single (get_field d ''output''))"
  proof -
    let ?s = "sort_key (sort_val ''index'') (rev ?D)"
    have sne: "?s \<noteq> []" using rne by (metis length_sort length_0_conv)
    have g: "last ?s \<in> set (rev ?D) \<and> (\<forall>x\<in>set (rev ?D). sort_val ''index'' x \<le> sort_val ''index'' (last ?s))"
      by (rule last_sort_key_greatest [OF rne])
    have "sort_docs (Some (''index'', - 1)) ?D = last ?s # tl (rev ?s)"
      using sne by (simp add: hd_rev [symmetric] del: hd_rev)
    then have "get_output st uuid ''last'' ld = Inr (Single (get_field (last ?s) ''output''))"
      using g by (intro get_output_one [OF nt]) (auto simp: outf)
    then show ?thesis using g by auto
  qed
  show "\<exists>d\<in>set ?D. (\<forall>e\<in>set ?D. sort_val ''index'' d \<le> sort_val ''index'' e) \<and>
          get_output st uuid ''first'' ld = Inr (Single (get_field d ''output''))"
  proof -
    let ?s = "sort_key (sort_val ''index'') ?D"
    have sne: "?s \<noteq> []" using ne by (metis length_sort length_0_conv)
    have g: "hd ?s \<in> set ?D \<and> (\<forall>x\<in>set ?D. sort_val ''index'' (hd ?s) \<le> sort_val ''index'' x)"
      by (rule hd_sort_key_least [OF ne])
    have "sort_docs (Some (''index'', 1)) ?D = hd ?s # tl ?s"
      using sne by simp
    then have "get_output st uuid ''first'' ld = Inr (Single (get_field (hd ?s) ''output''))"
      using g by (intro get_output_one [OF nt]) (auto simp: outf)
    then show ?thesis using g by auto
  qed
  show "\<exists>ds. mset ds = mset ?D \<and> sorted (rev (map (sort_val ''index'') ds)) \<and>
          get_output st uuid ''all'' ld = Inr (Many (map (\<lambda>d. get_field d ''output'') ds))"
  proof -
    let ?ds = "sort_docs (Some (''index'', - 1)) ?D"
    have m: "mset ?ds = mset ?D" by simp
    have s: "sorted (rev (map (sort_val ''index'') ?ds))"
      by (simp add: rev_map [symmetric])
    have dne: "?ds \<noteq> []" using ne m by (metis mset_zero_iff)
    have sub: "set ?ds = set ?D" using m by (metis set_mset_mset)
    have gfp: "get_field (project (Some (PList [''output'', ''uuid'', ''index''])) d) ''output''
               = get_field d ''output''" for d
      by (simp add: get_field_def field_project)
    have tm: "try_map (\<lambda>r. case field ''output'' r of None \<Rightarrow> Inl KeyError | Some out \<Rightarrow> Inr out)
                (map (project (Some (PList [''output'', ''uuid'', ''index'']))) ?ds)
              = Inr (map (\<lambda>d. get_field d ''output'') ?ds)"
      by (rule try_map_map_Inr) (use sub outf in \<open>auto simp: field_project\<close>)
    have q: "query st [(''uuid'', Eq (JStr uuid))] (Some (PList [''output''])) (Some (''index'', - 1)) 0 0 ld
             = (map (project (Some (PList [''output'', ''uuid'', ''index'']))) ?ds, None)"
      unfolding query_def query_gen_not_truthy [OF nt] run_gen_map_Inr coll_query_all
        filter_matches_uuid by simp
    have "get_output st uuid ''all'' ld = Inr (Many (map (\<lambda>d. get_field d ''output'') ?ds))"
      unfolding get_output_def q using dne by (simp add: tm del: sort_docs.simps)
    then show ?thesis using m s by blast
  qed
qed

theorem get_output_which_witness:
  "docs_of runs_store ''U'' = [run1, run2]
   \<and> get_output runs_store ''U'' ''last'' None = Inr (Single (JInt 20))
   \<and> get_output runs_store ''U'' ''first'' None = Inr (Single (JInt 10))
   \<and> get_output runs_store ''U'' ''all'' None = Inr (Many [JInt 20, JInt 10])"
proof -
  have ds: "docs_of runs_store ''U'' = [run1, run2]"
    by (simp add: docs_of_def example_defs)
  have h1: "docs_of runs_store ''U'' \<noteq> []" by (simp add: ds)
  have h2: "\<forall>d\<in>set (docs_of runs_store ''U''). has_key ''output'' d"
    unfolding ds by (simp add: has_key_def run1_def run2_def)
  have h3: "None = Some (LoadBool False) \<or> (None = None \<and> load runs_store = LoadBool False)"
    by (simp add: example_defs)
  show ?thesis
    using get_output_which [OF h1 h2 h3] ds
    by (simp add: example_defs store_defs)
qed

section \<open>Not found (C6)\<close>

text \<open>
  C6. For a uuid with no stored document, \<^verbatim>\<open>get_output\<close> fails with the not-found error
  (ValueError) whatever \<open>which\<close> is; \<^verbatim>\<open>query_one\<close> with criteria that match no document
  returns \<^verbatim>\<open>None\<close> and does not fail.
\<close>

theorem get_output_not_found:
  "((\<forall>d\<in>set (docs_store st). field ''uuid'' d \<noteq> Some (JStr uuid))
      \<longrightarrow> get_output st uuid which ld = Inl ValueError)
   \<and> ((\<forall>d\<in>set (docs_store st). \<not> matches crit d)
      \<longrightarrow> query_one st crit props srt ld = Inr None)"
proof (intro conjI impI)
  assume a: "\<forall>d\<in>set (docs_store st). field ''uuid'' d \<noteq> Some (JStr uuid)"
  have nm: "\<forall>d\<in>set (docs_store st). \<not> matches [(''uuid'', Eq (JStr uuid))] d"
    using a by (simp add: matches_uuid)
  show "get_output st uuid which ld = Inl ValueError"
    by (simp add: get_output_def query_one_def query_def query_gen_def
        coll_query_no_match [OF nm])
next
  assume "\<forall>d\<in>set (docs_store st). \<not> matches crit d"
  then show "query_one st crit props srt ld = Inr None"
    by (simp add: query_one_def query_gen_def coll_query_no_match)
qed

theorem get_output_not_found_witness:
  "get_output runs_store ''V'' ''last'' None = Inl ValueError
   \<and> get_output runs_store ''V'' ''first'' None = Inl ValueError
   \<and> get_output runs_store ''V'' ''all'' (Some (LoadBool True)) = Inl ValueError
   \<and> query_one runs_store [(''uuid'', Eq (JStr ''V''))] None None None = Inr None"
proof -
  have h1: "\<forall>d\<in>set (docs_store runs_store). field ''uuid'' d \<noteq> Some (JStr ''V'')"
    by (simp add: example_defs)
  have h2: "\<forall>d\<in>set (docs_store runs_store). \<not> matches [(''uuid'', Eq (JStr ''V''))] d"
    by (simp add: example_defs matches_def)
  show ?thesis
    using get_output_not_found [of runs_store "''V''" "''last''" None "[(''uuid'', Eq (JStr ''V''))]" None None]
      get_output_not_found [of runs_store "''V''" "''first''" None "[(''uuid'', Eq (JStr ''V''))]" None None]
      get_output_not_found [of runs_store "''V''" "''all''" "Some (LoadBool True)" "[(''uuid'', Eq (JStr ''V''))]" None None]
      h1 h2
    by blast
qed

section \<open>query with load NONE (C7)\<close>

text \<open>
  C7. With LoadSpec NONE (\<^verbatim>\<open>load=False\<close>, given or as the store's default), \<^verbatim>\<open>query\<close> yields
  the documents exactly as the document collection returns them, so every stub position
  still holds its stub; and the blob collection plays no part: the same call on a store
  with any other blob collection yields the same.
\<close>

theorem query_load_none_unchanged:
  assumes "ld = Some (LoadBool False) \<or> (ld = None \<and> load st = LoadBool False)"
  shows "query st crit props srt skip limit ld =
           (coll_query (docs_store st) crit (add_identity props) srt skip limit, None)
         \<and> query (st\<lparr>data_store := blobs\<rparr>) crit props srt skip limit ld =
             query st crit props srt skip limit ld"
proof -
  have nt: "\<not> truthy (prepare_load (Some (case ld of None \<Rightarrow> load st | Some l \<Rightarrow> l)))"
    using assms by auto
  have nt': "\<not> truthy (prepare_load
               (Some (case ld of None \<Rightarrow> load (st\<lparr>data_store := blobs\<rparr>) | Some l \<Rightarrow> l)))"
    using assms by auto
  show ?thesis
    unfolding query_def query_gen_not_truthy [OF nt] query_gen_not_truthy [OF nt']
    by (simp add: run_gen_map_Inr)
qed

theorem query_load_none_unchanged_witness:
  "query data_store_ex [] None None 0 0 (Some (LoadBool False)) = ([stored_doc], None)
   \<and> pydash_get stored_doc [Key ''output'', Key ''data''] = data_stub
   \<and> query (data_store_ex\<lparr>data_store := []\<rparr>) [] None None 0 0 (Some (LoadBool False))
       = ([stored_doc], None)"
proof -
  have h: "Some (LoadBool False) = Some (LoadBool False)
           \<or> (Some (LoadBool False) = None \<and> load data_store_ex = LoadBool False)"
    by simp
  show ?thesis
    using query_load_none_unchanged [OF h, where crit = "[]" and props = None and srt = None
        and skip = 0 and limit = 0 and blobs = "[]"]
    by (simp add: example_defs coll_query_def matches_def pydash_get_def)
qed

section \<open>groupby (C8)\<close>



section \<open>remove\_docs: blobs first (C9)\<close>

text \<open>
  C9. For any criteria (the matching documents being Documents), \<^verbatim>\<open>remove_docs\<close> first makes
  one removal on the blob collection per matching document, and these leave the document
  collection as it was; after them no blob owned by a matching document is left, and all
  other blobs are. Only the last step removes the matching documents, and it leaves the
  blob collection as it then is. Afterwards a query with the same criteria yields nothing.
\<close>

theorem remove_docs_blobs_first:
  assumes docs: "\<forall>d\<in>set (docs_store st). matches crit d \<longrightarrow> is_document d"
  shows "\<exists>blob_steps st'.
           remove_docs_steps st crit = (blob_steps @ [st'], None)
         \<and> remove_docs st crit = (st', None)
         \<and> length blob_steps = length (filter (matches crit) (docs_store st))
         \<and> (\<forall>s\<in>set blob_steps. docs_store s = docs_store st)
         \<and> data_store (last (st # blob_steps)) =
             filter (\<lambda>b. \<not> (\<exists>d\<in>set (docs_store st). matches crit d \<and> owned_by d b))
               (data_store st)
         \<and> data_store st' = data_store (last (st # blob_steps))
         \<and> docs_store st' = filter (\<lambda>d. \<not> matches crit d) (docs_store st)
         \<and> query st' crit props srt skip limit ld = ([], None)"
proof -
  let ?P = "PList [''uuid'', ''index'', ''uuid'', ''index'']"
  let ?M = "filter (matches crit) (docs_store st)"
  let ?rs = "map (project (Some ?P)) ?M"
  let ?lk = "prepare_load (Some (load st))"
  have raw: "coll_query (docs_store st) crit (add_identity (Some (PList [''uuid'', ''index''])))
               None 0 0 = ?rs"
    by (simp add: coll_query_def)
  have clean: "\<forall>r\<in>set ?rs. find_key ''blob_uuid'' False r = []
                 \<and> has_key ''uuid'' r \<and> has_key ''index'' r"
  proof
    fix r assume "r \<in> set ?rs"
    then obtain d where d: "d \<in> set (docs_store st)" "matches crit d" and r: "r = project (Some ?P) d"
      by auto
    have doc: "is_document d" using docs d by blast
    have "has_key ''uuid'' r" "has_key ''index'' r"
      unfolding r using is_document_has_keys [OF doc] by (auto intro: has_key_project)
    then show "find_key ''blob_uuid'' False r = [] \<and> has_key ''uuid'' r \<and> has_key ''index'' r"
      unfolding r using find_key_projected_identity [OF doc] by simp
  qed
  from remove_blobs_clean [OF clean, of ?lk "data_store st"] obtain steps where
    rb: "remove_blobs ?lk ?rs (data_store st) = (steps, None)" and len: "length steps = length ?rs"
    and lst: "last (data_store st # steps) =
                filter (\<lambda>blob. \<not> (\<exists>r\<in>set ?rs. owned_by r blob)) (data_store st)"
    by blast
  let ?bs = "map (\<lambda>b. st\<lparr>data_store := b\<rparr>) steps"
  let ?st' = "st\<lparr>docs_store := coll_remove (docs_store st) crit,
                   data_store := last (data_store st # steps)\<rparr>"
  have steps: "remove_docs_steps st crit = (?bs @ [?st'], None)"
    unfolding remove_docs_steps_def raw Let_def rb by simp
  have rd: "remove_docs st crit = (?st', None)"
    unfolding remove_docs_def steps by simp
  have l: "length ?bs = length ?M" using len by simp
  have ds: "\<forall>s\<in>set ?bs. docs_store s = docs_store st" by auto
  have lastbs: "data_store (last (st # ?bs)) = last (data_store st # steps)"
    by (cases steps rule: rev_cases) simp_all
  have own: "(\<exists>r\<in>set ?rs. owned_by r blob)
             = (\<exists>d\<in>set (docs_store st). matches crit d \<and> owned_by d blob)" for blob
    by (auto simp: owned_by_project)
  have f: "data_store (last (st # ?bs)) =
             filter (\<lambda>b. \<not> (\<exists>d\<in>set (docs_store st). matches crit d \<and> owned_by d b))
               (data_store st)"
    unfolding lastbs lst by (rule filter_cong) (simp_all only: own)
  have d': "data_store ?st' = data_store (last (st # ?bs))" using lastbs by simp
  have dd: "docs_store ?st' = filter (\<lambda>d. \<not> matches crit d) (docs_store st)"
    by (simp add: coll_remove_def)
  have nm: "\<forall>d\<in>set (docs_store ?st'). \<not> matches crit d"
    unfolding dd by simp
  have q: "query ?st' crit props srt skip limit ld = ([], None)"
    unfolding query_def query_gen_def Let_def coll_query_no_match [OF nm] by simp
  show ?thesis using steps rd l ds f d' dd q by blast
qed

theorem remove_docs_blobs_first_witness:
  "remove_docs_steps two_jobs_store [(''uuid'', Eq (JStr ''U''))]
     = ([two_jobs_store\<lparr>data_store := [other_blob]\<rparr>,
         two_jobs_store\<lparr>docs_store := [other_doc], data_store := [other_blob]\<rparr>], None)
   \<and> query (fst (remove_docs two_jobs_store [(''uuid'', Eq (JStr ''U''))]))
         [(''uuid'', Eq (JStr ''U''))] None None 0 0 None = ([], None)"
proof -
  have h: "\<forall>d\<in>set (docs_store two_jobs_store).
             matches [(''uuid'', Eq (JStr ''U''))] d \<longrightarrow> is_document d"
    by (simp add: two_jobs_store_def example_defs other_doc_def is_document_def)
  have s: "remove_docs_steps two_jobs_store [(''uuid'', Eq (JStr ''U''))]
     = ([two_jobs_store\<lparr>data_store := [other_blob]\<rparr>,
         two_jobs_store\<lparr>docs_store := [other_doc], data_store := [other_blob]\<rparr>], None)"
    by (simp add: remove_docs_steps_def two_jobs_store_def example_defs other_doc_def
        other_blob_def coll_query_def coll_remove_def matches_def query_doc_def)
  show ?thesis
    using remove_docs_blobs_first [OF h, of None None 0 0 None] s
    by (auto simp: remove_docs_def)
qed

section \<open>The identity fields in a projection (C10)\<close>

lemma query_gen_has_key:
  assumes p: "add_identity props = Some p"
    and docs: "\<forall>d\<in>set (docs_store st). has_key ''uuid'' d \<and> has_key ''index'' d"
    and x: "Inr x \<in> set (query_gen st crit props srt skip limit ld)"
  shows "has_key ''uuid'' x \<and> has_key ''index'' x"
proof -
  let ?lk = "prepare_load (Some (case ld of None \<Rightarrow> load st | Some l \<Rightarrow> l))"
  from x obtain r where r: "r \<in> set (coll_query (docs_store st) crit (Some p) srt skip limit)"
    and q: "query_doc ?lk (data_store st) r = Inr x"
    unfolding query_gen_def Let_def p by auto
  from r coll_query_subset obtain d where d: "d \<in> set (docs_store st)"
    and rd: "r = project (Some p) d" by blast
  have w: "''uuid'' \<in> set (wanted p) \<and> ''index'' \<in> set (wanted p)"
    by (rule wanted_add_identity [OF p])
  have "has_key ''uuid'' r" "has_key ''index'' r"
    unfolding rd using w docs d by (auto intro: has_key_project)
  then show ?thesis using q by (auto intro: query_doc_has_key)
qed

text \<open>
  C10. For a projection given as a list or a dict, \<^verbatim>\<open>query\<close> and \<^verbatim>\<open>query_one\<close> hand the
  document collection a projection that includes \<open>uuid\<close> and \<open>index\<close>; so, the stored
  documents having these two fields, every document yielded has them, whatever the caller
  asked for and whatever is loaded.
\<close>

theorem query_identity_fields:
  assumes props: "props = Some (PList ps) \<or> props = Some (PDict pd)"
    and docs: "\<forall>d\<in>set (docs_store st). has_key ''uuid'' d \<and> has_key ''index'' d"
  shows "(\<exists>p. add_identity props = Some p
             \<and> ''uuid'' \<in> set (wanted p) \<and> ''index'' \<in> set (wanted p)
             \<and> query_gen st crit props srt skip limit ld =
                 map (query_doc (prepare_load (Some (case ld of None \<Rightarrow> load st | Some l \<Rightarrow> l)))
                        (data_store st))
                   (coll_query (docs_store st) crit (Some p) srt skip limit))
         \<and> (\<forall>d\<in>set (fst (query st crit props srt skip limit ld)).
               has_key ''uuid'' d \<and> has_key ''index'' d)
         \<and> (\<forall>d. query_one st crit props srt ld = Inr (Some d)
               \<longrightarrow> has_key ''uuid'' d \<and> has_key ''index'' d)"
proof -
  obtain p where p: "add_identity props = Some p"
    using props by auto
  have w: "''uuid'' \<in> set (wanted p) \<and> ''index'' \<in> set (wanted p)"
    by (rule wanted_add_identity [OF p])
  have g: "query_gen st crit props srt skip limit ld =
        map (query_doc (prepare_load (Some (case ld of None \<Rightarrow> load st | Some l \<Rightarrow> l)))
               (data_store st))
          (coll_query (docs_store st) crit (Some p) srt skip limit)"
    by (simp add: query_gen_def p)
  have q: "\<forall>d\<in>set (fst (query st crit props srt skip limit ld)).
             has_key ''uuid'' d \<and> has_key ''index'' d"
  proof
    fix d assume "d \<in> set (fst (query st crit props srt skip limit ld))"
    then have "Inr d \<in> set (query_gen st crit props srt skip limit ld)"
      unfolding query_def by (rule run_gen_set)
    then show "has_key ''uuid'' d \<and> has_key ''index'' d"
      by (rule query_gen_has_key [OF p docs])
  qed
  have o: "\<forall>d. query_one st crit props srt ld = Inr (Some d)
              \<longrightarrow> has_key ''uuid'' d \<and> has_key ''index'' d"
  proof (intro allI impI)
    fix d assume a: "query_one st crit props srt ld = Inr (Some d)"
    then have "Inr d \<in> set (query_gen st crit props srt 0 1 ld)"
      unfolding query_one_def by (auto split: list.splits sum.splits)
    then show "has_key ''uuid'' d \<and> has_key ''index'' d"
      by (rule query_gen_has_key [OF p docs])
  qed
  show ?thesis using p w g q o by blast
qed

theorem query_identity_fields_witness:
  "query runs_store [] (Some (PList [''output''])) None 0 0 None
     = ([run1, run2], None)
   \<and> has_key ''uuid'' run1 \<and> has_key ''index'' run1
   \<and> has_key ''uuid'' run2 \<and> has_key ''index'' run2
   \<and> query_one runs_store [] (Some (PDict [(''output'', 1), (''uuid'', 0)])) None None
       = Inr (Some (JObj [(''uuid'', JStr ''U''), (''index'', JInt 1), (''output'', JInt 10)]))"
proof -
  have h1: "Some (PList [''output'']) = Some (PList [''output''])
            \<or> Some (PList [''output'']) = Some (PDict [])"
    by simp
  have h2: "\<forall>d\<in>set (docs_store runs_store). has_key ''uuid'' d \<and> has_key ''index'' d"
    by (simp add: example_defs has_key_def)
  have q: "query runs_store [] (Some (PList [''output''])) None 0 0 None = ([run1, run2], None)"
    by (simp add: example_defs store_defs)
  show ?thesis
    using query_identity_fields [OF h1 h2, of "[]" None 0 0 None] q
    by (simp add: example_defs store_defs has_key_def)
qed


end
